theory Spec2Isabelle
  imports Main "HOL-Library.Word" "HOL-Library.Char_ord" "HOL-Library.List_Lexorder"
begin

section \<open>Data model of \<open>KVStorage\<close>\<close>

text \<open>
  Times are \<open>uint64_t\<close>, time-to-live values and scan counts are \<open>uint32_t\<close>.
  Keys and values are \<open>std::string\<close>: byte strings, compared byte-wise and
  lexicographically (the order of \<open>HOL-Library.List_Lexorder\<close> over
  \<open>HOL-Library.Char_ord\<close>).
\<close>

type_synonym u64 = "64 word"
type_synonym u32 = "32 word"

text \<open>\<open>struct timedSetMember { std::string map_key; uint64_t death_time{}; }\<close>\<close>

record timedSetMember =
  map_key :: string
  death_time :: u64

text \<open>
  \<open>struct timedKVMember { std::string value; uint64_t death_time{}; }\<close>; the fields are
  prefixed, since \<open>death_time\<close> already names the field of \<open>timedSetMember\<close>.
\<close>

record timedKVMember =
  kv_value :: string
  kv_death_time :: u64

text \<open>A value-initialised \<open>timedKVMember\<close>, which \<open>operator[]\<close> inserts for a missing key.\<close>

definition timedKVMember_default :: timedKVMember where
  "timedKVMember_default = \<lparr>kv_value = [], kv_death_time = 0\<rparr>"

text \<open>
  \<open>timedSetComparator::operator()\<close>: by death time, ties broken by key.
\<close>

definition timedSetComparator :: "timedSetMember \<Rightarrow> timedSetMember \<Rightarrow> bool" where
  "timedSetComparator lhs rhs \<longleftrightarrow>
     death_time lhs < death_time rhs
     \<or> (death_time lhs = death_time rhs \<and> map_key lhs < map_key rhs)"

subsection \<open>The ordered containers\<close>

text \<open>
  \<open>std::map<std::string, timedKVMember, std::less<>>\<close> is the list of its entries in
  iteration order \<open>begin() .. end()\<close>, that is, in strictly ascending key order.
\<close>

type_synonym kv_map_t = "(string \<times> timedKVMember) list"

definition map_find :: "string \<Rightarrow> kv_map_t \<Rightarrow> timedKVMember option" where
  "map_find k m = map_of m k"

definition map_contains :: "string \<Rightarrow> kv_map_t \<Rightarrow> bool" where
  "map_contains k m \<longleftrightarrow> map_find k m \<noteq> None"

text \<open>\<open>m[k] = x\<close>: the entry is replaced in place, or put at its place in key order.\<close>

fun map_assign :: "string \<Rightarrow> timedKVMember \<Rightarrow> kv_map_t \<Rightarrow> kv_map_t" where
  "map_assign k x [] = [(k, x)]"
| "map_assign k x ((k', x') # m) =
     (if k < k' then (k, x) # (k', x') # m
      else if k' < k then (k', x') # map_assign k x m
      else (k, x) # m)"

text \<open>
  Reading \<open>m[k]\<close>: \<open>operator[]\<close> returns the stored member, and for a missing key it
  first inserts a value-initialised one. The map after the call is returned too.
\<close>

definition map_subscript :: "string \<Rightarrow> kv_map_t \<Rightarrow> timedKVMember \<times> kv_map_t" where
  "map_subscript k m =
     (case map_find k m of
        Some x \<Rightarrow> (x, m)
      | None \<Rightarrow> (timedKVMember_default, map_assign k timedKVMember_default m))"

fun map_erase :: "string \<Rightarrow> kv_map_t \<Rightarrow> kv_map_t" where
  "map_erase k [] = []"
| "map_erase k ((k', x') # m) = (if k' = k then m else (k', x') # map_erase k m)"

text \<open>
  \<open>std::set<timedSetMember, timedSetComparator>\<close> is the list of its elements in
  iteration order, strictly ascending for the comparator. Two elements are equivalent
  when neither is ordered before the other.
\<close>

type_synonym expiration_set_t = "timedSetMember list"

definition equiv_members :: "timedSetMember \<Rightarrow> timedSetMember \<Rightarrow> bool" where
  "equiv_members a b \<longleftrightarrow> \<not> timedSetComparator a b \<and> \<not> timedSetComparator b a"

text \<open>\<open>find\<close>: the element equivalent to the probe, if there is one.\<close>

fun set_find :: "timedSetMember \<Rightarrow> expiration_set_t \<Rightarrow> timedSetMember option" where
  "set_find x [] = None"
| "set_find x (y # ys) = (if equiv_members x y then Some y else set_find x ys)"

text \<open>\<open>emplace\<close>: nothing is inserted when an equivalent element is already there.\<close>

fun set_emplace :: "timedSetMember \<Rightarrow> expiration_set_t \<Rightarrow> expiration_set_t" where
  "set_emplace x [] = [x]"
| "set_emplace x (y # ys) =
     (if timedSetComparator x y then x # y # ys
      else if timedSetComparator y x then y # set_emplace x ys
      else y # ys)"

text \<open>\<open>erase(it)\<close>, for the iterator that \<open>find\<close> returned.\<close>

fun set_erase :: "timedSetMember \<Rightarrow> expiration_set_t \<Rightarrow> expiration_set_t" where
  "set_erase x [] = []"
| "set_erase x (y # ys) = (if y = x then ys else y # set_erase x ys)"

subsection \<open>The store\<close>

text \<open>
  The two containers are the state. The clock is the caller's: each public operation
  reads it at most once, and takes that reading as its argument \<open>now\<close>.
  The method \<open>set\<close> is \<open>set_kv\<close> here (\<open>set\<close> is the HOL function from lists to sets),
  and \<open>getDeathTime_\<close> and \<open>maxTime_\<close> lose their trailing underscore. What \<open>set\<close>
  prints to \<open>std::cout\<close> is not part of the state and is left out.
\<close>

record KVStorage =
  kv_map :: kv_map_t
  expiration_set :: expiration_set_t

definition maxTime :: u64 where
  "maxTime = - 1"

definition mapContains :: "string \<Rightarrow> KVStorage \<Rightarrow> bool" where
  "mapContains key s \<longleftrightarrow> map_contains key (kv_map s)"

definition getDeathTime :: "u64 \<Rightarrow> u32 \<Rightarrow> u64" where
  "getDeathTime now ttl = (if ttl = 0 then maxTime else ucast ttl + now)"

definition tryToRemoveFromSet :: "string \<Rightarrow> KVStorage \<Rightarrow> KVStorage" where
  "tryToRemoveFromSet key s =
     (let (e, m) = map_subscript key (kv_map s);
          tmp = \<lparr>map_key = key, death_time = kv_death_time e\<rparr>
      in case set_find tmp (expiration_set s) of
           Some it \<Rightarrow> s\<lparr>kv_map := m, expiration_set := set_erase it (expiration_set s)\<rparr>
         | None \<Rightarrow> s\<lparr>kv_map := m\<rparr>)"

definition set_kv :: "u64 \<Rightarrow> string \<Rightarrow> string \<Rightarrow> u32 \<Rightarrow> KVStorage \<Rightarrow> KVStorage" where
  "set_kv now key val ttl s =
     (let s1 = (if mapContains key s then tryToRemoveFromSet key s else s);
          dt = getDeathTime now ttl;
          s2 = (if ttl \<noteq> 0
                then s1\<lparr>expiration_set :=
                          set_emplace \<lparr>map_key = key, death_time = dt\<rparr> (expiration_set s1)\<rparr>
                else s1)
      in s2\<lparr>kv_map := map_assign key \<lparr>kv_value = val, kv_death_time = dt\<rparr> (kv_map s2)\<rparr>)"

definition remove :: "string \<Rightarrow> KVStorage \<Rightarrow> bool \<times> KVStorage" where
  "remove key s =
     (if \<not> mapContains key s then (False, s)
      else let s1 = tryToRemoveFromSet key s
           in (True, s1\<lparr>kv_map := map_erase key (kv_map s1)\<rparr>))"

definition keyAvailable :: "u64 \<Rightarrow> string \<Rightarrow> KVStorage \<Rightarrow> bool \<times> KVStorage" where
  "keyAvailable now key s =
     (if \<not> mapContains key s then (False, s)
      else let (e, m) = map_subscript key (kv_map s);
               s1 = s\<lparr>kv_map := m\<rparr>;
               tmp = \<lparr>map_key = key, death_time = kv_death_time e\<rparr>
           in case set_find tmp (expiration_set s1) of
                Some it \<Rightarrow> (death_time it > now, s1)
              | None \<Rightarrow> (True, s1))"

definition get :: "u64 \<Rightarrow> string \<Rightarrow> KVStorage \<Rightarrow> string option \<times> KVStorage" where
  "get now key s =
     (let (ok, s1) = keyAvailable now key s
      in if \<not> ok then (None, s1)
         else let (e, m) = map_subscript key (kv_map s1)
              in (Some (kv_value e), s1\<lparr>kv_map := m\<rparr>))"

text \<open>
  The loop of \<open>getManySorted\<close> over \<open>kv_map_.begin() .. end()\<close>, with the 32-bit
  \<open>count\<close> and the \<open>result\<close> vector it appends to.
\<close>

fun getManySorted_loop ::
  "u64 \<Rightarrow> string \<Rightarrow> kv_map_t \<Rightarrow> u32 \<Rightarrow> (string \<times> string) list \<Rightarrow> (string \<times> string) list"
where
  "getManySorted_loop now key [] count result = result"
| "getManySorted_loop now key ((k, e) # rest) count result =
     (if count > 0 then
        (if kv_death_time e \<le> now then getManySorted_loop now key rest count result
         else if k \<ge> key
           then getManySorted_loop now key rest (count - 1) (result @ [(k, kv_value e)])
         else getManySorted_loop now key rest count result)
      else result)"

definition getManySorted ::
  "u64 \<Rightarrow> string \<Rightarrow> u32 \<Rightarrow> KVStorage \<Rightarrow> (string \<times> string) list \<times> KVStorage" where
  "getManySorted now key count s =
     (if count = 0 then ([], s)
      else (getManySorted_loop now key (kv_map s) count [], s))"

definition removeOneExpiredEntry ::
  "u64 \<Rightarrow> KVStorage \<Rightarrow> (string \<times> string) option \<times> KVStorage" where
  "removeOneExpiredEntry now s =
     (case expiration_set s of
        [] \<Rightarrow> (None, s)
      | b # _ \<Rightarrow>
          if death_time b > now then (None, s)
          else let key = map_key b;
                   (e, m) = map_subscript key (kv_map s);
                   removed = (key, kv_value e);
                   (_, s2) = remove key (s\<lparr>kv_map := m\<rparr>)
               in (Some removed, s2))"

text \<open>
  The constructor starts from two empty containers and calls \<open>set\<close> for each entry of
  the span, in order. It reads the clock once per entry with a non-zero ttl:
  \<open>clock i\<close> is the reading during the \<open>i\<close>-th iteration.
\<close>

type_synonym entry = "string \<times> string \<times> u32"

definition empty_storage :: KVStorage where
  "empty_storage = \<lparr>kv_map = [], expiration_set = []\<rparr>"

fun KVStorage_loop :: "(nat \<Rightarrow> u64) \<Rightarrow> nat \<Rightarrow> entry list \<Rightarrow> KVStorage \<Rightarrow> KVStorage" where
  "KVStorage_loop clock i [] s = s"
| "KVStorage_loop clock i ((key, val, ttl) # entries) s =
     KVStorage_loop clock (Suc i) entries (set_kv (clock i) key val ttl s)"

definition KVStorage_init :: "entry list \<Rightarrow> (nat \<Rightarrow> u64) \<Rightarrow> KVStorage" where
  "KVStorage_init entries clock = KVStorage_loop clock 0 entries empty_storage"

subsection \<open>Well-formed states\<close>

text \<open>
  Both containers keep their elements strictly ascending; a list that is not is no state
  of a \<open>std::map\<close> or \<open>std::set\<close>.
\<close>

definition map_sorted :: "kv_map_t \<Rightarrow> bool" where
  "map_sorted m \<longleftrightarrow> sorted_wrt (<) (map fst m)"

definition set_sorted :: "expiration_set_t \<Rightarrow> bool" where
  "set_sorted es \<longleftrightarrow> sorted_wrt timedSetComparator es"

text \<open>
  The consistency the code maintains between the two containers: every element of
  \<open>expiration_set_\<close> names a key of \<open>kv_map_\<close> and carries that key's death time, and
  every key whose death time is not \<open>maxTime_\<close> has its element in \<open>expiration_set_\<close>.
\<close>

definition consistent :: "KVStorage \<Rightarrow> bool" where
  "consistent s \<longleftrightarrow>
     list_all (\<lambda>b. case map_find (map_key b) (kv_map s) of
                      Some e \<Rightarrow> kv_death_time e = death_time b
                    | None \<Rightarrow> False) (expiration_set s)
     \<and> list_all (\<lambda>(k, e). kv_death_time e \<noteq> maxTime \<longrightarrow>
                   set_find \<lparr>map_key = k, death_time = kv_death_time e\<rparr> (expiration_set s) \<noteq> None)
          (kv_map s)"

definition invariant :: "KVStorage \<Rightarrow> bool" where
  "invariant s \<longleftrightarrow> map_sorted (kv_map s) \<and> set_sorted (expiration_set s) \<and> consistent s"

text \<open>No element of \<open>expiration_set_\<close> carries the death time \<open>maxTime_\<close>.\<close>

definition no_sentinel_entry :: "KVStorage \<Rightarrow> bool" where
  "no_sentinel_entry s \<longleftrightarrow> list_all (\<lambda>b. death_time b \<noteq> maxTime) (expiration_set s)"

text \<open>
  Invariant I1 in the specification's words: a key is in the primary map with a finite
  death time \<open>t\<close> (one that is not the sentinel) if and only if \<open>(t, k)\<close> is in the
  expiration index.
\<close>

definition indexed_iff_finite :: "KVStorage \<Rightarrow> bool" where
  "indexed_iff_finite s \<longleftrightarrow>
     list_all (\<lambda>b. case map_find (map_key b) (kv_map s) of
                      Some e \<Rightarrow> kv_death_time e = death_time b \<and> kv_death_time e \<noteq> maxTime
                    | None \<Rightarrow> False) (expiration_set s)
     \<and> list_all (\<lambda>(k, e). kv_death_time e \<noteq> maxTime \<longrightarrow>
                   set_find \<lparr>map_key = k, death_time = kv_death_time e\<rparr> (expiration_set s) \<noteq> None)
          (kv_map s)"

text \<open>Invariant I2: at most one element of the expiration index per key.\<close>

definition one_entry_per_key :: "KVStorage \<Rightarrow> bool" where
  "one_entry_per_key s \<longleftrightarrow> distinct (map map_key (expiration_set s))"

text \<open>
  The index after \<open>tryToRemoveFromSet(key)\<close>, as \<open>set\<close> and \<open>remove\<close> call it: only
  for a key of \<open>kv_map_\<close>, and then without that key's element.
\<close>

definition index_without :: "string \<Rightarrow> KVStorage \<Rightarrow> expiration_set_t" where
  "index_without key s =
     (case map_find key (kv_map s) of
        Some e \<Rightarrow> set_erase \<lparr>map_key = key, death_time = kv_death_time e\<rparr> (expiration_set s)
      | None \<Rightarrow> expiration_set s)"

subsection \<open>Callers\<close>

text \<open>\<open>n\<close> calls of \<open>removeOneExpiredEntry\<close> in a row, all at the clock reading \<open>now\<close>.\<close>

fun evict_repeat ::
  "nat \<Rightarrow> u64 \<Rightarrow> KVStorage \<Rightarrow> (string \<times> string) option list \<times> KVStorage" where
  "evict_repeat 0 now s = ([], s)"
| "evict_repeat (Suc n) now s =
     (let (r, s1) = removeOneExpiredEntry now s;
          (rs, s2) = evict_repeat n now s1
      in (r # rs, s2))"

text \<open>What a call of \<open>removeOneExpiredEntry\<close> returns for the element \<open>b\<close> of the index.\<close>

definition evicted_pair :: "KVStorage \<Rightarrow> timedSetMember \<Rightarrow> string \<times> string" where
  "evicted_pair s b = (map_key b, kv_value (fst (map_subscript (map_key b) (kv_map s))))"

text \<open>A sequence of calls of the public operations, each with its clock reading.\<close>

datatype call =
    Set string string u32
  | Remove string
  | Get string
  | GetManySorted string u32
  | RemoveOneExpiredEntry

fun do_call :: "u64 \<Rightarrow> call \<Rightarrow> KVStorage \<Rightarrow> KVStorage" where
  "do_call now (Set key val ttl) s = set_kv now key val ttl s"
| "do_call now (Remove key) s = snd (remove key s)"
| "do_call now (Get key) s = snd (get now key s)"
| "do_call now (GetManySorted key count) s = snd (getManySorted now key count s)"
| "do_call now RemoveOneExpiredEntry s = snd (removeOneExpiredEntry now s)"

fun run :: "(u64 \<times> call) list \<Rightarrow> KVStorage \<Rightarrow> KVStorage" where
  "run [] s = s"
| "run ((now, c) # cs) s = run cs (do_call now c s)"

text \<open>The calls that write or delete the key \<open>key\<close> by name.\<close>

fun writes_key :: "string \<Rightarrow> call \<Rightarrow> bool" where
  "writes_key key (Set k val ttl) \<longleftrightarrow> k = key"
| "writes_key key (Remove k) \<longleftrightarrow> k = key"
| "writes_key key c \<longleftrightarrow> False"

text \<open>
  Construction in the specification's words: start from the empty store and apply
  \<open>set\<close> to each triple in input order (the \<open>i\<close>-th under the clock reading \<open>clock i\<close>).
\<close>

definition construct_by_set :: "entry list \<Rightarrow> (nat \<Rightarrow> u64) \<Rightarrow> KVStorage" where
  "construct_by_set entries clock =
     foldl (\<lambda>s (i, key, val, ttl). set_kv (clock i) key val ttl s) empty_storage
       (enumerate 0 entries)"

text \<open>The store of the test \<open>TTLWithQueue\<close>, built at time 0.\<close>

definition sample_entries :: "entry list" where
  "sample_entries =
     [(''a'', ''1'', 2), (''b'', ''2'', 0), (''d'', ''4'', 3), (''e'', ''5'', 1), (''x'', ''j9'', 2)]"

definition sample_store :: KVStorage where
  "sample_store = KVStorage_init sample_entries (\<lambda>i. 0)"

subsection \<open>Vocabulary of the claims\<close>

text \<open>
  The entries of the primary map that a scan from \<open>key\<close> at time \<open>now\<close> may return, in
  map order, and the pair returned for an entry.
\<close>

definition live_from :: "u64 \<Rightarrow> string \<Rightarrow> kv_map_t \<Rightarrow> kv_map_t" where
  "live_from now key m = filter (\<lambda>(k, e). now < kv_death_time e \<and> key \<le> k) m"

definition key_value :: "string \<times> timedKVMember \<Rightarrow> string \<times> string" where
  "key_value p = (fst p, kv_value (snd p))"

text \<open>
  A key stored with the value \<open>val\<close> and the sentinel death time, with no element in the
  expiration index: the state of a key after \<open>set\<close> with \<open>ttl = 0\<close>.
\<close>

definition immortal :: "string \<Rightarrow> string \<Rightarrow> KVStorage \<Rightarrow> bool" where
  "immortal key val s \<longleftrightarrow>
     map_find key (kv_map s) = Some \<lparr>kv_value = val, kv_death_time = maxTime\<rparr>
     \<and> list_all (\<lambda>b. map_key b \<noteq> key) (expiration_set s)"

text \<open>
  The elements of the expiration index whose death time has been reached at \<open>now\<close>, in the
  order of the index, and the test of \<open>removeOneExpiredEntry\<close> for "nothing to evict".
\<close>

definition expired_entries :: "u64 \<Rightarrow> KVStorage \<Rightarrow> timedSetMember list" where
  "expired_entries now s = filter (\<lambda>b. death_time b \<le> now) (expiration_set s)"

definition nothing_expired :: "u64 \<Rightarrow> KVStorage \<Rightarrow> bool" where
  "nothing_expired now s \<longleftrightarrow>
     (case expiration_set s of [] \<Rightarrow> True | b # rest \<Rightarrow> now < death_time b)"

section \<open>The containers\<close>

lemma equiv_members_iff: "equiv_members a b \<longleftrightarrow> a = b"
  by (cases a; cases b) (auto simp: equiv_members_def timedSetComparator_def)

lemma comparator_irrefl: "\<not> timedSetComparator a a"
  by (simp add: timedSetComparator_def)

lemma comparator_trans:
  "timedSetComparator a b \<Longrightarrow> timedSetComparator b c \<Longrightarrow> timedSetComparator a c"
  by (auto simp: timedSetComparator_def)

lemma comparator_total: "timedSetComparator a b \<or> a = b \<or> timedSetComparator b a"
  using equiv_members_iff [of a b] by (auto simp: equiv_members_def)

lemma comparator_asym: "timedSetComparator a b \<Longrightarrow> \<not> timedSetComparator b a"
  by (auto simp: timedSetComparator_def)

lemma set_find_eq: "set_find x ys = (if x \<in> set ys then Some x else None)"
  by (induction ys) (auto simp: equiv_members_iff)

lemma set_set_emplace: "set (set_emplace x ys) = insert x (set ys)"
proof (induction ys)
  case Nil
  then show ?case by simp
next
  case (Cons y ys)
  then show ?case
    using comparator_total [of x y] by auto
qed

lemma sorted_set_emplace: "set_sorted ys \<Longrightarrow> set_sorted (set_emplace x ys)"
proof (induction ys)
  case Nil
  then show ?case by (simp add: set_sorted_def)
next
  case (Cons y ys)
  then show ?case
    using comparator_total [of x y]
    by (auto simp: set_sorted_def set_set_emplace intro: comparator_trans)
qed

lemma set_sorted_distinct: "set_sorted ys \<Longrightarrow> distinct ys"
  by (induction ys) (auto simp: set_sorted_def comparator_irrefl)

lemma set_set_erase: "set_sorted ys \<Longrightarrow> set (set_erase x ys) = set ys - {x}"
proof (induction ys)
  case Nil
  then show ?case by simp
next
  case (Cons y ys)
  then show ?case
    by (auto simp: set_sorted_def comparator_irrefl)
qed

lemma set_erase_subset: "set (set_erase x ys) \<subseteq> set ys"
  by (induction ys) auto

lemma sorted_set_erase: "set_sorted ys \<Longrightarrow> set_sorted (set_erase x ys)"
proof (induction ys)
  case Nil
  then show ?case by simp
next
  case (Cons y ys)
  then show ?case
    using set_erase_subset [of x ys] by (auto simp: set_sorted_def)
qed

lemma set_erase_hd: "set_erase x (x # ys) = ys"
  by simp

lemma map_of_map_assign: "map_of (map_assign k x m) = (map_of m)(k \<mapsto> x)"
  by (induction m) (auto simp: fun_eq_iff)

lemma fst_set_map_assign: "fst ` set (map_assign k x m) = insert k (fst ` set m)"
  by (induction k x m rule: map_assign.induct) auto

lemma sorted_map_assign: "map_sorted m \<Longrightarrow> map_sorted (map_assign k x m)"
proof (induction m)
  case Nil
  then show ?case by (simp add: map_sorted_def)
next
  case (Cons p m)
  obtain k' x' where p: "p = (k', x')" by (cases p)
  from Cons have IH: "map_sorted (map_assign k x m)" and
    below: "\<forall>j \<in> fst ` set m. k' < j" and tl: "sorted_wrt (<) (map fst m)"
    by (auto simp: map_sorted_def p)
  show ?case
  proof (cases "k < k'")
    case True
    with below tl show ?thesis by (auto simp: map_sorted_def p)
  next
    case False
    show ?thesis
    proof (cases "k' < k")
      case True
      with IH below fst_set_map_assign [of k x m] show ?thesis
        by (auto simp: map_sorted_def p)
    next
      case False
      with \<open>\<not> k < k'\<close> have "k = k'" by simp
      with below tl show ?thesis by (simp add: map_sorted_def p)
    qed
  qed
qed

lemma map_of_map_erase:
  "map_sorted m \<Longrightarrow> map_of (map_erase k m) = (map_of m)(k := None)"
proof (induction m)
  case Nil
  then show ?case by simp
next
  case (Cons p m)
  obtain k' x' where p: "p = (k', x')" by (cases p)
  from Cons have IH: "map_of (map_erase k m) = (map_of m)(k := None)"
    and below: "\<forall>j \<in> fst ` set m. k' < j"
    by (auto simp: map_sorted_def p)
  show ?case
  proof (cases "k' = k")
    case True
    from below have "k \<notin> fst ` set m" using True by auto
    then have "map_of m k = None" by (simp add: map_of_eq_None_iff)
    with True show ?thesis by (auto simp: p fun_eq_iff)
  next
    case False
    with IH show ?thesis by (auto simp: p fun_eq_iff)
  qed
qed

lemma map_erase_subset: "set (map_erase k m) \<subseteq> set m"
  by (induction k m rule: map_erase.induct) auto

lemma sorted_map_erase: "map_sorted m \<Longrightarrow> map_sorted (map_erase k m)"
proof (induction m)
  case Nil
  then show ?case by simp
next
  case (Cons p m)
  then show ?case
    using map_erase_subset [of k m] by (cases p) (auto simp: map_sorted_def)
qed

lemma map_subscript_present:
  "map_find k m = Some x \<Longrightarrow> map_subscript k m = (x, m)"
  by (simp add: map_subscript_def)

section \<open>The operations and the invariant\<close>

lemma set_erase_absent: "x \<notin> set ys \<Longrightarrow> set_erase x ys = ys"
  by (induction ys) auto

lemma map_sorted_distinct: "map_sorted m \<Longrightarrow> distinct (map fst m)"
  by (simp add: map_sorted_def strict_sorted_iff)

lemma map_sorted_map_of:
  "map_sorted m \<Longrightarrow> (k, e) \<in> set m \<longleftrightarrow> map_of m k = Some e"
  using map_sorted_distinct [of m] by auto

text \<open>The operations, with the container calls resolved.\<close>

lemma tryToRemoveFromSet_eq:
  "map_find key (kv_map s) = Some e \<Longrightarrow>
   tryToRemoveFromSet key s =
     s\<lparr>expiration_set := set_erase \<lparr>map_key = key, death_time = kv_death_time e\<rparr> (expiration_set s)\<rparr>"
  by (simp add: tryToRemoveFromSet_def Let_def map_subscript_def set_find_eq set_erase_absent)

lemma set_kv_eq:
  "set_kv now key val ttl s =
     \<lparr>kv_map = map_assign key \<lparr>kv_value = val, kv_death_time = getDeathTime now ttl\<rparr> (kv_map s),
      expiration_set =
        (if ttl \<noteq> 0
         then set_emplace \<lparr>map_key = key, death_time = getDeathTime now ttl\<rparr> (index_without key s)
         else index_without key s)\<rparr>"
  by (cases "map_find key (kv_map s)")
     (simp_all add: set_kv_def Let_def mapContains_def map_contains_def index_without_def
        tryToRemoveFromSet_eq)

lemma remove_eq:
  "remove key s =
     (case map_find key (kv_map s) of
        None \<Rightarrow> (False, s)
      | Some e \<Rightarrow> (True, \<lparr>kv_map = map_erase key (kv_map s), expiration_set = index_without key s\<rparr>))"
  by (cases "map_find key (kv_map s)")
     (simp_all add: remove_def Let_def mapContains_def map_contains_def index_without_def
        tryToRemoveFromSet_eq)

lemma keyAvailable_eq:
  "keyAvailable now key s =
     (case map_find key (kv_map s) of
        None \<Rightarrow> (False, s)
      | Some e \<Rightarrow>
          (\<lparr>map_key = key, death_time = kv_death_time e\<rparr> \<in> set (expiration_set s)
             \<longrightarrow> now < kv_death_time e, s))"
  by (cases "map_find key (kv_map s)")
     (simp_all add: keyAvailable_def Let_def mapContains_def map_contains_def map_subscript_def
        set_find_eq)

lemma get_eq:
  "get now key s =
     (case map_find key (kv_map s) of
        None \<Rightarrow> (None, s)
      | Some e \<Rightarrow>
          (if \<lparr>map_key = key, death_time = kv_death_time e\<rparr> \<in> set (expiration_set s)
                \<longrightarrow> now < kv_death_time e
           then Some (kv_value e) else None, s))"
  by (cases "map_find key (kv_map s)")
     (simp_all add: get_def Let_def keyAvailable_eq map_subscript_def)

lemma consistent_iff:
  assumes "map_sorted (kv_map s)"
  shows "consistent s \<longleftrightarrow>
     (\<forall>b \<in> set (expiration_set s).
        \<exists>e. map_of (kv_map s) (map_key b) = Some e \<and> kv_death_time e = death_time b)
     \<and> (\<forall>k e. map_of (kv_map s) k = Some e \<longrightarrow> kv_death_time e \<noteq> maxTime \<longrightarrow>
           \<lparr>map_key = k, death_time = kv_death_time e\<rparr> \<in> set (expiration_set s))"
proof -
  have a: "list_all (\<lambda>b. case map_find (map_key b) (kv_map s) of
                      Some e \<Rightarrow> kv_death_time e = death_time b
                    | None \<Rightarrow> False) (expiration_set s)
       \<longleftrightarrow> (\<forall>b \<in> set (expiration_set s).
        \<exists>e. map_of (kv_map s) (map_key b) = Some e \<and> kv_death_time e = death_time b)"
    by (auto simp: list_all_iff map_find_def split: option.splits)
  have b: "list_all (\<lambda>(k, e). kv_death_time e \<noteq> maxTime \<longrightarrow>
                   set_find \<lparr>map_key = k, death_time = kv_death_time e\<rparr> (expiration_set s) \<noteq> None)
          (kv_map s)
       \<longleftrightarrow> (\<forall>k e. map_of (kv_map s) k = Some e \<longrightarrow> kv_death_time e \<noteq> maxTime \<longrightarrow>
           \<lparr>map_key = k, death_time = kv_death_time e\<rparr> \<in> set (expiration_set s))"
  proof
    assume h: "list_all (\<lambda>(k, e). kv_death_time e \<noteq> maxTime \<longrightarrow>
                   set_find \<lparr>map_key = k, death_time = kv_death_time e\<rparr> (expiration_set s) \<noteq> None)
          (kv_map s)"
    show "\<forall>k e. map_of (kv_map s) k = Some e \<longrightarrow> kv_death_time e \<noteq> maxTime \<longrightarrow>
           \<lparr>map_key = k, death_time = kv_death_time e\<rparr> \<in> set (expiration_set s)"
    proof (intro allI impI)
      fix k e
      assume "map_of (kv_map s) k = Some e" and ne: "kv_death_time e \<noteq> maxTime"
      then have "(k, e) \<in> set (kv_map s)" by (simp add: map_of_SomeD)
      with h ne show "\<lparr>map_key = k, death_time = kv_death_time e\<rparr> \<in> set (expiration_set s)"
        by (auto simp: list_all_iff set_find_eq split: if_splits)
    qed
  next
    assume h: "\<forall>k e. map_of (kv_map s) k = Some e \<longrightarrow> kv_death_time e \<noteq> maxTime \<longrightarrow>
           \<lparr>map_key = k, death_time = kv_death_time e\<rparr> \<in> set (expiration_set s)"
    show "list_all (\<lambda>(k, e). kv_death_time e \<noteq> maxTime \<longrightarrow>
                   set_find \<lparr>map_key = k, death_time = kv_death_time e\<rparr> (expiration_set s) \<noteq> None)
          (kv_map s)"
      unfolding list_all_iff
    proof
      fix x assume x: "x \<in> set (kv_map s)"
      obtain k e where xe: "x = (k, e)" by (cases x)
      with x have "map_of (kv_map s) k = Some e"
        using map_sorted_map_of [OF assms] by simp
      with h show "case x of (k, e) \<Rightarrow> kv_death_time e \<noteq> maxTime \<longrightarrow>
                   set_find \<lparr>map_key = k, death_time = kv_death_time e\<rparr> (expiration_set s) \<noteq> None"
        by (simp add: xe set_find_eq)
    qed
  qed
  show ?thesis unfolding consistent_def a b ..
qed

lemma invariant_entry_unique:
  assumes "invariant s" and "b \<in> set (expiration_set s)"
    and "map_find (map_key b) (kv_map s) = Some e"
  shows "b = \<lparr>map_key = map_key b, death_time = kv_death_time e\<rparr>"
  using assms consistent_iff [of s]
  by (cases b) (auto simp: invariant_def map_find_def)

lemma index_without_set:
  assumes "invariant s"
  shows "set (index_without key s) = {b \<in> set (expiration_set s). map_key b \<noteq> key}"
proof (cases "map_find key (kv_map s)")
  case None
  with assms consistent_iff [of s] have "\<forall>b \<in> set (expiration_set s). map_key b \<noteq> key"
    by (auto simp: invariant_def map_find_def)
  with None show ?thesis by (auto simp: index_without_def)
next
  case (Some e)
  let ?x = "\<lparr>map_key = key, death_time = kv_death_time e\<rparr>"
  have ss: "set_sorted (expiration_set s)"
    using assms by (simp add: invariant_def)
  have u: "b = ?x" if "b \<in> set (expiration_set s)" "map_key b = key" for b
  proof -
    from Some that(2) have "map_find (map_key b) (kv_map s) = Some e" by simp
    from invariant_entry_unique [OF assms that(1) this] that(2) show ?thesis by simp
  qed
  have "set (index_without key s) = set (expiration_set s) - {?x}"
    using Some by (simp add: index_without_def set_set_erase [OF ss])
  also have "\<dots> = {b \<in> set (expiration_set s). map_key b \<noteq> key}"
  proof (rule set_eqI)
    fix b
    show "b \<in> set (expiration_set s) - {?x} \<longleftrightarrow>
          b \<in> {b \<in> set (expiration_set s). map_key b \<noteq> key}"
    proof (cases "map_key b = key")
      case True
      with u [of b] show ?thesis by blast
    next
      case False
      then have "b \<noteq> ?x" by (cases b) auto
      with False show ?thesis by simp
    qed
  qed
  finally show ?thesis .
qed

lemma index_without_sorted:
  "set_sorted (expiration_set s) \<Longrightarrow> set_sorted (index_without key s)"
  by (auto simp: index_without_def sorted_set_erase split: option.splits)

lemma invariant_set_kv:
  assumes "invariant s"
  shows "invariant (set_kv now key val ttl s)"
proof -
  let ?s' = "set_kv now key val ttl s"
  let ?dt = "getDeathTime now ttl"
  have ms: "map_sorted (kv_map s)" and ss: "set_sorted (expiration_set s)" and c: "consistent s"
    using assms by (simp_all add: invariant_def)
  have ms': "map_sorted (kv_map ?s')"
    using ms by (simp add: set_kv_eq sorted_map_assign)
  have ss': "set_sorted (expiration_set ?s')"
    using ss by (simp add: set_kv_eq sorted_set_emplace index_without_sorted)
  have M: "map_of (kv_map ?s') = (map_of (kv_map s))(key \<mapsto> \<lparr>kv_value = val, kv_death_time = ?dt\<rparr>)"
    by (simp add: set_kv_eq map_of_map_assign)
  have E: "set (expiration_set ?s') =
      {b \<in> set (expiration_set s). map_key b \<noteq> key}
      \<union> (if ttl \<noteq> 0 then {\<lparr>map_key = key, death_time = ?dt\<rparr>} else {})"
    by (simp add: set_kv_eq set_set_emplace index_without_set [OF assms])
  have z: "ttl = 0 \<Longrightarrow> ?dt = maxTime"
    by (simp add: getDeathTime_def)
  have "consistent ?s'"
    unfolding consistent_iff [OF ms'] M E
    using c [unfolded consistent_iff [OF ms]] z
    by auto
  with ms' ss' show ?thesis by (simp add: invariant_def)
qed

lemma invariant_remove:
  assumes "invariant s"
  shows "invariant (snd (remove key s))"
proof (cases "map_find key (kv_map s)")
  case None
  with assms show ?thesis by (simp add: remove_eq)
next
  case (Some e)
  let ?s' = "snd (remove key s)"
  have ms: "map_sorted (kv_map s)" and ss: "set_sorted (expiration_set s)" and c: "consistent s"
    using assms by (simp_all add: invariant_def)
  have ms': "map_sorted (kv_map ?s')"
    using ms Some by (simp add: remove_eq sorted_map_erase)
  have ss': "set_sorted (expiration_set ?s')"
    using ss Some by (simp add: remove_eq index_without_sorted)
  have M: "map_of (kv_map ?s') = (map_of (kv_map s))(key := None)"
    using Some ms by (simp add: remove_eq map_of_map_erase)
  have E: "set (expiration_set ?s') = {b \<in> set (expiration_set s). map_key b \<noteq> key}"
    using Some by (simp add: remove_eq index_without_set [OF assms])
  have "consistent ?s'"
    unfolding consistent_iff [OF ms'] M E
    using c [unfolded consistent_iff [OF ms]]
    by auto
  with ms' ss' show ?thesis by (simp add: invariant_def)
qed

lemma get_state: "snd (get now key s) = s"
  by (simp add: get_eq split: option.splits)

lemma getManySorted_state: "snd (getManySorted now key count s) = s"
  by (simp add: getManySorted_def)

lemma removeOneExpiredEntry_eq:
  assumes "invariant s"
  shows "removeOneExpiredEntry now s =
     (case expiration_set s of
        [] \<Rightarrow> (None, s)
      | b # rest \<Rightarrow>
          if now < death_time b then (None, s)
          else (Some (evicted_pair s b),
                \<lparr>kv_map = map_erase (map_key b) (kv_map s), expiration_set = rest\<rparr>))"
proof (cases "expiration_set s")
  case Nil
  then show ?thesis by (simp add: removeOneExpiredEntry_def)
next
  case (Cons b rest)
  have ms: "map_sorted (kv_map s)" using assms by (simp add: invariant_def)
  from assms Cons consistent_iff [OF ms]
  obtain e where e: "map_find (map_key b) (kv_map s) = Some e" "kv_death_time e = death_time b"
    by (auto simp: invariant_def map_find_def)
  have "index_without (map_key b) s = rest"
    using e Cons by (simp add: index_without_def)
  with e Cons show ?thesis
    by (simp add: removeOneExpiredEntry_def Let_def map_subscript_def remove_eq evicted_pair_def)
qed

lemma removeOneExpiredEntry_state:
  assumes "invariant s"
  shows "snd (removeOneExpiredEntry now s) = s
       \<or> (\<exists>b \<in> set (expiration_set s). snd (removeOneExpiredEntry now s) = snd (remove (map_key b) s))"
proof (cases "expiration_set s")
  case Nil
  then show ?thesis by (simp add: removeOneExpiredEntry_def)
next
  case (Cons b rest)
  have ms: "map_sorted (kv_map s)" using assms by (simp add: invariant_def)
  from assms Cons consistent_iff [OF ms]
  obtain e where e: "map_find (map_key b) (kv_map s) = Some e" "kv_death_time e = death_time b"
    by (auto simp: invariant_def map_find_def)
  with Cons show ?thesis
    by (auto simp: removeOneExpiredEntry_def Let_def map_subscript_def split: prod.splits)
qed

lemma invariant_removeOneExpiredEntry:
  assumes "invariant s"
  shows "invariant (snd (removeOneExpiredEntry now s))"
  using removeOneExpiredEntry_state [OF assms, of now] invariant_remove [OF assms] assms
  by auto

lemma invariant_empty: "invariant empty_storage"
  by (simp add: invariant_def empty_storage_def map_sorted_def set_sorted_def consistent_def)

lemma invariant_KVStorage_loop:
  "invariant s \<Longrightarrow> invariant (KVStorage_loop clock i entries s)"
  by (induction clock i entries s rule: KVStorage_loop.induct) (simp_all add: invariant_set_kv)

lemma invariant_KVStorage_init: "invariant (KVStorage_init entries clock)"
  by (simp add: KVStorage_init_def invariant_KVStorage_loop invariant_empty)

section \<open>Consequences of the invariant\<close>

lemma indexed_iff_finite_eq:
  "indexed_iff_finite s \<longleftrightarrow> consistent s \<and> no_sentinel_entry s"
  unfolding indexed_iff_finite_def consistent_def no_sentinel_entry_def list_all_iff
  by (auto split: option.splits)

lemma indexed_iff_finite_iff:
  assumes "map_sorted (kv_map s)"
  shows "indexed_iff_finite s \<longleftrightarrow>
     (\<forall>k t. \<lparr>map_key = k, death_time = t\<rparr> \<in> set (expiration_set s) \<longleftrightarrow>
        (\<exists>v. map_find k (kv_map s) = Some \<lparr>kv_value = v, kv_death_time = t\<rparr> \<and> t \<noteq> maxTime))"
proof -
  have r: "(\<exists>v. map_of (kv_map s) k = Some \<lparr>kv_value = v, kv_death_time = t\<rparr>) \<longleftrightarrow>
        (\<exists>e. map_of (kv_map s) k = Some e \<and> kv_death_time e = t)" for k t
  proof
    assume "\<exists>e. map_of (kv_map s) k = Some e \<and> kv_death_time e = t"
    then obtain e where "map_of (kv_map s) k = Some e" "kv_death_time e = t" by blast
    then show "\<exists>v. map_of (kv_map s) k = Some \<lparr>kv_value = v, kv_death_time = t\<rparr>"
      by (cases e) auto
  qed auto
  have q: "(\<forall>b \<in> set (expiration_set s). P (map_key b) (death_time b)) \<longleftrightarrow>
        (\<forall>k t. \<lparr>map_key = k, death_time = t\<rparr> \<in> set (expiration_set s) \<longrightarrow> P k t)" for P
  proof
    assume h: "\<forall>k t. \<lparr>map_key = k, death_time = t\<rparr> \<in> set (expiration_set s) \<longrightarrow> P k t"
    show "\<forall>b \<in> set (expiration_set s). P (map_key b) (death_time b)"
    proof
      fix b assume "b \<in> set (expiration_set s)"
      with h [rule_format, of "map_key b" "death_time b"] show "P (map_key b) (death_time b)"
        by (cases b) simp
    qed
  qed force
  have "indexed_iff_finite s \<longleftrightarrow>
      (\<forall>b \<in> set (expiration_set s).
         (\<exists>e. map_of (kv_map s) (map_key b) = Some e \<and> kv_death_time e = death_time b)
         \<and> death_time b \<noteq> maxTime)
      \<and> (\<forall>k e. map_of (kv_map s) k = Some e \<longrightarrow> kv_death_time e \<noteq> maxTime \<longrightarrow>
           \<lparr>map_key = k, death_time = kv_death_time e\<rparr> \<in> set (expiration_set s))"
    unfolding indexed_iff_finite_eq consistent_iff [OF assms] no_sentinel_entry_def list_all_iff
    by blast
  also have "\<dots> \<longleftrightarrow>
      (\<forall>k t. \<lparr>map_key = k, death_time = t\<rparr> \<in> set (expiration_set s) \<longrightarrow>
         (\<exists>e. map_of (kv_map s) k = Some e \<and> kv_death_time e = t) \<and> t \<noteq> maxTime)
      \<and> (\<forall>k e. map_of (kv_map s) k = Some e \<longrightarrow> kv_death_time e \<noteq> maxTime \<longrightarrow>
           \<lparr>map_key = k, death_time = kv_death_time e\<rparr> \<in> set (expiration_set s))"
    unfolding q [of "\<lambda>k t. (\<exists>e. map_of (kv_map s) k = Some e \<and> kv_death_time e = t) \<and> t \<noteq> maxTime"]
    ..
  also have "\<dots> \<longleftrightarrow>
     (\<forall>k t. \<lparr>map_key = k, death_time = t\<rparr> \<in> set (expiration_set s) \<longleftrightarrow>
        (\<exists>e. map_of (kv_map s) k = Some e \<and> kv_death_time e = t) \<and> t \<noteq> maxTime)"
    by blast
  finally show ?thesis
    by (simp add: map_find_def r)
qed

lemma invariant_one_entry_per_key:
  assumes "invariant s"
  shows "one_entry_per_key s"
proof -
  have "distinct (expiration_set s)"
    using assms by (simp add: invariant_def set_sorted_distinct)
  moreover have "inj_on map_key (set (expiration_set s))"
  proof (rule inj_onI)
    fix a b
    assume a: "a \<in> set (expiration_set s)" and b: "b \<in> set (expiration_set s)"
      and k: "map_key a = map_key b"
    have ms: "map_sorted (kv_map s)" using assms by (simp add: invariant_def)
    from assms a consistent_iff [OF ms]
    obtain e where e: "map_find (map_key a) (kv_map s) = Some e"
      by (auto simp: invariant_def map_find_def)
    from invariant_entry_unique [OF assms a e]
         invariant_entry_unique [OF assms b e [unfolded k]] k
    show "a = b" by simp
  qed
  ultimately show ?thesis
    by (simp add: one_entry_per_key_def distinct_map)
qed

lemma no_sentinel_subset:
  "no_sentinel_entry s \<Longrightarrow> set (expiration_set s') \<subseteq> set (expiration_set s) \<Longrightarrow>
   no_sentinel_entry s'"
  by (auto simp: no_sentinel_entry_def list_all_iff)

lemma index_without_subset: "set (index_without key s) \<subseteq> set (expiration_set s)"
  using set_erase_subset by (auto simp: index_without_def split: option.splits)

lemma no_sentinel_set_kv:
  assumes "no_sentinel_entry s" and "ttl = 0 \<or> getDeathTime now ttl \<noteq> maxTime"
  shows "no_sentinel_entry (set_kv now key val ttl s)"
  using assms index_without_subset [of key s]
  by (auto simp: no_sentinel_entry_def list_all_iff set_kv_eq set_set_emplace)

lemma no_sentinel_remove:
  "no_sentinel_entry s \<Longrightarrow> no_sentinel_entry (snd (remove key s))"
  using index_without_subset [of key s]
  by (auto simp: remove_eq no_sentinel_entry_def list_all_iff split: option.splits)

lemma no_sentinel_removeOneExpiredEntry:
  assumes "invariant s" and "no_sentinel_entry s"
  shows "no_sentinel_entry (snd (removeOneExpiredEntry now s))"
  using assms(2)
  by (auto simp: removeOneExpiredEntry_eq [OF assms(1)] no_sentinel_entry_def
      split: list.splits)

section \<open>The operations, one by one\<close>

subsection \<open>\<open>getManySorted\<close>\<close>

lemma getManySorted_loop_eq:
  "getManySorted_loop now key m count result =
     result @ take (unat count) (map key_value (live_from now key m))"
proof (induction m arbitrary: count result)
  case Nil
  then show ?case by (simp add: live_from_def)
next
  case (Cons p m)
  obtain k e where p: "p = (k, e)" by (cases p)
  show ?case
  proof (cases "count = 0")
    case True
    then show ?thesis by (simp add: p)
  next
    case False
    then have pos: "0 < count" and u: "unat count = Suc (unat (count - 1))"
      by (simp_all add: word_greater_zero_iff unat_minus_one unat_gt_0)
    show ?thesis
    proof (cases "now < kv_death_time e \<and> key \<le> k")
      case True
      then have "live_from now key (p # m) = p # live_from now key m"
        by (simp add: live_from_def p)
      moreover from True have "\<not> kv_death_time e \<le> now" by (simp add: not_le)
      ultimately show ?thesis
        using True pos by (simp add: p Cons.IH u key_value_def)
    next
      case False
      then have "live_from now key (p # m) = live_from now key m"
        by (auto simp: live_from_def p)
      with False pos show ?thesis
        by (auto simp: p Cons.IH not_less)
    qed
  qed
qed

lemma getManySorted_eq:
  "fst (getManySorted now key count s) =
     take (unat count) (map key_value (live_from now key (kv_map s)))"
  by (simp add: getManySorted_def getManySorted_loop_eq)

lemma map_fst_key_value: "map fst (map key_value xs) = map fst xs"
  by (simp add: key_value_def comp_def)

lemma sorted_live_from: "map_sorted m \<Longrightarrow> sorted_wrt (<) (map fst (live_from now key m))"
  unfolding map_sorted_def live_from_def
  by (induction m) auto

subsection \<open>\<open>set\<close>\<close>

lemma map_find_set_kv:
  "map_find k (kv_map (set_kv now key val ttl s)) =
     (if k = key then Some \<lparr>kv_value = val, kv_death_time = getDeathTime now ttl\<rparr>
      else map_find k (kv_map s))"
  by (simp add: set_kv_eq map_find_def map_of_map_assign)

lemma index_set_kv:
  assumes "invariant s"
  shows "set (expiration_set (set_kv now key val ttl s)) =
      {b \<in> set (expiration_set s). map_key b \<noteq> key}
      \<union> (if ttl \<noteq> 0 then {\<lparr>map_key = key, death_time = getDeathTime now ttl\<rparr>} else {})"
  by (simp add: set_kv_eq set_set_emplace index_without_set [OF assms])

lemma index_set_kv_member:
  "ttl \<noteq> 0 \<Longrightarrow>
   \<lparr>map_key = key, death_time = getDeathTime now ttl\<rparr> \<in> set (expiration_set (set_kv now key val ttl s))"
  by (simp add: set_kv_eq set_set_emplace)

subsection \<open>\<open>remove\<close>\<close>

lemma mapContains_iff: "mapContains key s \<longleftrightarrow> map_find key (kv_map s) \<noteq> None"
  by (simp add: mapContains_def map_contains_def)

lemma map_find_remove:
  assumes "map_sorted (kv_map s)"
  shows "map_find k (kv_map (snd (remove key s))) = (if k = key then None else map_find k (kv_map s))"
  using assms
  by (cases "map_find key (kv_map s)")
     (auto simp: remove_eq map_find_def map_of_map_erase)

lemma index_remove:
  assumes "invariant s"
  shows "set (expiration_set (snd (remove key s))) = {b \<in> set (expiration_set s). map_key b \<noteq> key}"
proof (cases "map_find key (kv_map s)")
  case None
  with index_without_set [OF assms, of key] show ?thesis
    by (simp add: remove_eq index_without_def)
next
  case (Some e)
  with index_without_set [OF assms, of key] show ?thesis
    by (simp add: remove_eq)
qed

subsection \<open>Arithmetic of death times\<close>

lemma unat_ttl_bound: "unat (ttl :: u32) < 2 ^ 32"
  using unsigned_less [of ttl, where ?'a = nat] by simp

lemma unat_now_bound: "unat (now :: u64) < 2 ^ 64"
  using unsigned_less [of now, where ?'a = nat] by simp

lemma unat_ucast_ttl: "unat (ucast (ttl :: u32) :: u64) = unat ttl"
proof -
  have "unat ttl < 2 ^ 64"
    using unat_ttl_bound [of ttl] by simp
  then show ?thesis
    by (simp add: unsigned_ucast_eq take_bit_nat_eq_self)
qed

lemma unat_maxTime: "unat maxTime = 2 ^ 64 - 1"
  by (simp add: maxTime_def unsigned_minus_1_eq_mask mask_eq_exp_minus_1)

lemma unat_getDeathTime:
  assumes "ttl \<noteq> 0"
  shows "unat (getDeathTime now ttl) = (unat now + unat ttl) mod 2 ^ 64"
proof -
  have "unat (ucast ttl + now) = (unat (ucast ttl :: u64) + unat now) mod 2 ^ LENGTH(64)"
    by (rule unat_word_ariths(1))
  also have "\<dots> = (unat now + unat ttl) mod 2 ^ 64"
    by (simp only: unat_ucast_ttl add.commute [of "unat ttl"]) simp
  finally show ?thesis
    using assms by (simp only: getDeathTime_def if_False)
qed

lemma wrapped_sum:
  assumes "2 ^ 64 \<le> unat (now :: u64) + unat (ttl :: u32)"
  shows "(unat now + unat ttl) mod 2 ^ 64 = unat now + unat ttl - 2 ^ 64"
    and "unat now + unat ttl - 2 ^ 64 < unat now"
    and "unat now + unat ttl - 2 ^ 64 < 2 ^ 64 - 1"
proof -
  let ?a = "unat now + unat ttl"
  have t: "unat ttl < 2 ^ 64"
    using unat_ttl_bound [of ttl] by simp
  have "?a mod 2 ^ 64 = (?a - 2 ^ 64) mod 2 ^ 64"
    using assms by (rule le_mod_geq)
  also have "\<dots> = ?a - 2 ^ 64"
    using unat_now_bound [of now] t by (intro mod_less) linarith
  finally show "?a mod 2 ^ 64 = ?a - 2 ^ 64" .
  show "?a - 2 ^ 64 < unat now"
    using assms t by linarith
  show "?a - 2 ^ 64 < 2 ^ 64 - 1"
    using assms t unat_now_bound [of now] by linarith
qed

lemma getDeathTime_wrapped:
  assumes "ttl \<noteq> 0" and "2 ^ 64 \<le> unat now + unat ttl"
  shows "getDeathTime now ttl < now"
proof -
  have "unat (getDeathTime now ttl) < unat now"
    using wrapped_sum(1,2) [OF assms(2)] by (simp only: unat_getDeathTime [OF assms(1)])
  then show ?thesis by (simp add: word_less_nat_alt)
qed

lemma getDeathTime_sentinel:
  assumes "ttl \<noteq> 0"
  shows "getDeathTime now ttl = maxTime \<longleftrightarrow> unat now + unat ttl = 2 ^ 64 - 1"
proof -
  have "getDeathTime now ttl = maxTime \<longleftrightarrow> unat (getDeathTime now ttl) = unat maxTime"
    by (simp add: word_unat_eq_iff)
  also have "\<dots> \<longleftrightarrow> (unat now + unat ttl) mod 2 ^ 64 = 2 ^ 64 - 1"
    by (simp only: unat_getDeathTime [OF assms] unat_maxTime)
  also have "\<dots> \<longleftrightarrow> unat now + unat ttl = 2 ^ 64 - 1"
  proof (cases "unat now + unat ttl < 2 ^ 64")
    case True
    then show ?thesis by (simp only: mod_less)
  next
    case False
    then have ge: "2 ^ 64 \<le> unat now + unat ttl" by simp
    from wrapped_sum(1,3) [OF ge] False show ?thesis by linarith
  qed
  finally show ?thesis .
qed

lemma get_after_set_kv:
  assumes "ttl \<noteq> 0"
  shows "fst (get now key (set_kv t0 key val ttl s)) =
           (if now < getDeathTime t0 ttl then Some val else None)"
  using index_set_kv_member [OF assms, of key t0 val s]
  by (simp add: get_eq map_find_set_kv)

subsection \<open>\<open>get\<close> in a consistent store\<close>

lemma get_eq_invariant:
  assumes "invariant s"
  shows "fst (get now key s) =
     (case map_find key (kv_map s) of
        None \<Rightarrow> None
      | Some e \<Rightarrow>
          if now < kv_death_time e
             \<or> (kv_death_time e = maxTime
                \<and> \<lparr>map_key = key, death_time = maxTime\<rparr> \<notin> set (expiration_set s))
          then Some (kv_value e) else None)"
proof (cases "map_find key (kv_map s)")
  case None
  then show ?thesis by (simp add: get_eq)
next
  case (Some e)
  have ms: "map_sorted (kv_map s)" using assms by (simp add: invariant_def)
  show ?thesis
  proof (cases "kv_death_time e = maxTime")
    case True
    with Some show ?thesis by (simp add: get_eq)
  next
    case False
    with assms Some consistent_iff [OF ms]
    have "\<lparr>map_key = key, death_time = kv_death_time e\<rparr> \<in> set (expiration_set s)"
      by (simp add: invariant_def map_find_def)
    with Some False show ?thesis by (simp add: get_eq)
  qed
qed

subsection \<open>Keys set with \<open>ttl = 0\<close>\<close>

lemma immortal_set_kv_zero:
  assumes "invariant s"
  shows "immortal key val (set_kv t0 key val 0 s)"
  using index_set_kv [OF assms, of t0 key val 0]
  by (simp add: immortal_def map_find_set_kv getDeathTime_def list_all_iff)

lemma immortal_get:
  assumes "immortal key val s"
  shows "fst (get now key s) = Some val"
  using assms
  by (auto simp: immortal_def get_eq list_all_iff)

lemma immortal_do_call:
  assumes inv: "invariant s" and im: "immortal key val s" and nw: "\<not> writes_key key c"
  shows "immortal key val (do_call now c s)"
proof (cases c)
  case (Set k v ttl)
  with nw have ne: "key \<noteq> k" by simp
  with im index_set_kv [OF inv, of now k v ttl] show ?thesis
    by (auto simp: Set immortal_def map_find_set_kv list_all_iff)
next
  case (Remove k)
  with nw have ne: "key \<noteq> k" by simp
  have ms: "map_sorted (kv_map s)" using inv by (simp add: invariant_def)
  from ne im index_remove [OF inv, of k] show ?thesis
    by (auto simp: Remove immortal_def map_find_remove [OF ms] list_all_iff)
next
  case (Get k)
  with im show ?thesis by (simp add: get_state)
next
  case (GetManySorted k n)
  with im show ?thesis by (simp add: getManySorted_state)
next
  case RemoveOneExpiredEntry
  show ?thesis
  proof (cases "expiration_set s")
    case Nil
    with im show ?thesis
      by (simp add: RemoveOneExpiredEntry removeOneExpiredEntry_eq [OF inv])
  next
    case (Cons b rest)
    from im Cons have ne: "map_key b \<noteq> key" and r: "list_all (\<lambda>b. map_key b \<noteq> key) rest"
      by (simp_all add: immortal_def)
    have ms: "map_sorted (kv_map s)" using inv by (simp add: invariant_def)
    from ne have "map_of (map_erase (map_key b) (kv_map s)) key = map_of (kv_map s) key"
      by (simp add: map_of_map_erase [OF ms])
    with im r Cons show ?thesis
      by (simp add: RemoveOneExpiredEntry removeOneExpiredEntry_eq [OF inv] immortal_def
          map_find_def)
  qed
qed

lemma invariant_do_call: "invariant s \<Longrightarrow> invariant (do_call now c s)"
  by (cases c)
     (simp_all add: invariant_set_kv invariant_remove get_state getManySorted_state
        invariant_removeOneExpiredEntry)

text \<open>Every state the program can reach satisfies the invariant.\<close>

lemma invariant_run: "invariant s \<Longrightarrow> invariant (run calls s)"
proof (induction calls arbitrary: s)
  case Nil
  then show ?case by simp
next
  case (Cons tc calls)
  obtain t c where tc: "tc = (t, c)" by (cases tc)
  from Cons.prems have "invariant (do_call t c s)" by (rule invariant_do_call)
  then have "invariant (run calls (do_call t c s))" by (rule Cons.IH)
  then show ?case by (simp add: tc)
qed

lemma invariant_reachable: "invariant (run calls (KVStorage_init entries clock))"
  by (rule invariant_run) (rule invariant_KVStorage_init)

lemma immortal_run:
  assumes "invariant s" and "immortal key val s"
    and "list_all (\<lambda>(t, c). \<not> writes_key key c) calls"
  shows "immortal key val (run calls s)"
  using assms
proof (induction calls arbitrary: s)
  case Nil
  then show ?case by simp
next
  case (Cons tc calls)
  obtain t c where tc: "tc = (t, c)" by (cases tc)
  from Cons.prems tc have nw: "\<not> writes_key key c"
    and rest: "list_all (\<lambda>(t, c). \<not> writes_key key c) calls"
    by simp_all
  from Cons.prems(1) have i': "invariant (do_call t c s)" by (rule invariant_do_call)
  from Cons.prems(1,2) nw have m': "immortal key val (do_call t c s)" by (rule immortal_do_call)
  from Cons.IH [OF i' m' rest] show ?case by (simp add: tc)
qed

subsection \<open>The constructor\<close>

lemma KVStorage_loop_foldl:
  "KVStorage_loop clock i entries s =
     foldl (\<lambda>s (i, key, val, ttl). set_kv (clock i) key val ttl s) s (enumerate i entries)"
  by (induction clock i entries s rule: KVStorage_loop.induct) simp_all

lemma KVStorage_loop_other_keys:
  assumes "\<forall>e \<in> set entries. fst e \<noteq> key"
  shows "map_find key (kv_map (KVStorage_loop clock i entries s)) = map_find key (kv_map s)"
  using assms
  by (induction clock i entries s rule: KVStorage_loop.induct) (auto simp: map_find_set_kv)

lemma KVStorage_loop_last_wins:
  assumes "n < length entries"
    and "\<forall>j. n < j \<and> j < length entries \<longrightarrow> fst (entries ! j) \<noteq> fst (entries ! n)"
  shows "map_find (fst (entries ! n)) (kv_map (KVStorage_loop clock i entries s)) =
           Some \<lparr>kv_value = fst (snd (entries ! n)),
                 kv_death_time = getDeathTime (clock (i + n)) (snd (snd (entries ! n)))\<rparr>"
  using assms
proof (induction entries arbitrary: n i s)
  case Nil
  then show ?case by simp
next
  case (Cons e entries)
  obtain key val ttl where e: "e = (key, val, ttl)" by (cases e)
  show ?case
  proof (cases n)
    case 0
    have "\<forall>x \<in> set entries. fst x \<noteq> key"
    proof
      fix x assume "x \<in> set entries"
      then obtain j where "j < length entries" "entries ! j = x"
        by (auto simp: in_set_conv_nth)
      with Cons.prems(2) [rule_format, of "Suc j"] 0 e show "fst x \<noteq> key" by simp
    qed
    then show ?thesis
      by (simp add: 0 e KVStorage_loop_other_keys map_find_set_kv)
  next
    case (Suc m)
    from Cons.prems(1) Suc have m: "m < length entries" by simp
    have later: "\<forall>j. m < j \<and> j < length entries \<longrightarrow> fst (entries ! j) \<noteq> fst (entries ! m)"
    proof (intro allI impI)
      fix j assume "m < j \<and> j < length entries"
      with Cons.prems(2) [rule_format, of "Suc j"] Suc
      show "fst (entries ! j) \<noteq> fst (entries ! m)" by simp
    qed
    from Cons.IH [OF m later, of "Suc i" "set_kv (clock i) key val ttl s"]
    show ?thesis by (simp add: Suc e)
  qed
qed

subsection \<open>\<open>removeOneExpiredEntry\<close>\<close>

lemma comparator_death_time: "timedSetComparator a b \<Longrightarrow> death_time a \<le> death_time b"
  by (auto simp: timedSetComparator_def)

lemma nothing_expired_iff:
  assumes "set_sorted (expiration_set s)"
  shows "nothing_expired now s \<longleftrightarrow> expired_entries now s = []"
proof (cases "expiration_set s")
  case Nil
  then show ?thesis by (simp add: nothing_expired_def expired_entries_def)
next
  case (Cons b rest)
  from assms Cons have "\<forall>c \<in> set rest. death_time b \<le> death_time c"
    by (auto simp: set_sorted_def dest: comparator_death_time)
  then have "now < death_time b \<Longrightarrow> \<forall>c \<in> set rest. \<not> death_time c \<le> now"
    by (auto simp: not_le intro: less_le_trans)
  then show ?thesis
    using Cons by (auto simp: nothing_expired_def expired_entries_def filter_empty_conv not_le)
qed

lemma removeOneExpiredEntry_nothing:
  assumes "nothing_expired now s"
  shows "removeOneExpiredEntry now s = (None, s)"
  using assms
  by (auto simp: removeOneExpiredEntry_def nothing_expired_def split: list.splits)

lemma removeOneExpiredEntry_evicts:
  assumes "invariant s" and "expiration_set s = b # rest" and "death_time b \<le> now"
  shows "removeOneExpiredEntry now s =
          (Some (evicted_pair s b),
           \<lparr>kv_map = map_erase (map_key b) (kv_map s), expiration_set = rest\<rparr>)"
  using assms(2,3)
  by (simp add: removeOneExpiredEntry_eq [OF assms(1)] not_less [symmetric])

lemma evict_repeat_nothing:
  assumes "nothing_expired now s"
  shows "evict_repeat n now s = (replicate n None, s)"
  by (induction n) (simp_all add: removeOneExpiredEntry_nothing [OF assms])

lemma fst_evict_repeat_Suc:
  "fst (evict_repeat (Suc n) now s) =
     fst (removeOneExpiredEntry now s) # fst (evict_repeat n now (snd (removeOneExpiredEntry now s)))"
  by (simp add: case_prod_beta)

lemma evicted_pair_after:
  assumes "map_sorted (kv_map s)" and "map_key c \<noteq> k"
  shows "evicted_pair \<lparr>kv_map = map_erase k (kv_map s), expiration_set = es\<rparr> c = evicted_pair s c"
  using assms
  by (simp add: evicted_pair_def map_subscript_def map_find_def map_of_map_erase
      split: option.splits)

lemma evict_repeat_drains:
  assumes "invariant s"
  shows "fst (evict_repeat (length (expired_entries now s) + j) now s) =
           map (\<lambda>b. Some (evicted_pair s b)) (expired_entries now s) @ replicate j None"
  using assms
proof (induction "expiration_set s" arbitrary: s)
  case Nil
  then have "nothing_expired now s" "expired_entries now s = []"
    by (simp_all add: nothing_expired_def expired_entries_def)
  then show ?case by (simp add: evict_repeat_nothing)
next
  case (Cons b rest)
  have es: "expiration_set s = b # rest" using Cons.hyps(2) by simp
  have inv: "invariant s" by (rule Cons.prems)
  have ms: "map_sorted (kv_map s)" and ss: "set_sorted (expiration_set s)"
    using inv by (simp_all add: invariant_def)
  show ?case
  proof (cases "death_time b \<le> now")
    case False
    then have n: "nothing_expired now s"
      by (simp add: nothing_expired_def es not_le)
    with nothing_expired_iff [OF ss, of now] have "expired_entries now s = []" by simp
    with n show ?thesis by (simp add: evict_repeat_nothing)
  next
    case True
    let ?s1 = "\<lparr>kv_map = map_erase (map_key b) (kv_map s), expiration_set = rest\<rparr>"
    have step: "removeOneExpiredEntry now s = (Some (evicted_pair s b), ?s1)"
      using inv es True by (rule removeOneExpiredEntry_evicts)
    have inv1: "invariant ?s1"
      using invariant_removeOneExpiredEntry [OF inv, of now] by (simp add: step)
    have ex: "expired_entries now s = b # expired_entries now ?s1"
      using True by (simp add: expired_entries_def es)
    have "distinct (map map_key (b # rest))"
      using invariant_one_entry_per_key [OF inv] by (simp add: one_entry_per_key_def es)
    then have "map_key b \<notin> map_key ` set rest"
      by simp
    then have "\<forall>c \<in> set rest. map_key c \<noteq> map_key b"
      by (metis imageI)
    then have same: "\<forall>c \<in> set (expired_entries now ?s1). evicted_pair ?s1 c = evicted_pair s c"
      by (simp add: expired_entries_def evicted_pair_after [OF ms])
    have "rest = expiration_set ?s1" by simp
    from Cons.hyps(1) [OF this inv1]
    have "fst (evict_repeat (length (expired_entries now ?s1) + j) now ?s1) =
           map (\<lambda>b. Some (evicted_pair ?s1 b)) (expired_entries now ?s1) @ replicate j None" .
    also have "map (\<lambda>b. Some (evicted_pair ?s1 b)) (expired_entries now ?s1) =
               map (\<lambda>b. Some (evicted_pair s b)) (expired_entries now ?s1)"
      using same by (intro map_cong refl) simp
    finally show ?thesis
      by (simp add: ex step fst_evict_repeat_Suc del: evict_repeat.simps)
  qed
qed

lemma expired_entries_sorted:
  "set_sorted (expiration_set s) \<Longrightarrow> sorted_wrt timedSetComparator (expired_entries now s)"
  unfolding set_sorted_def expired_entries_def by (rule sorted_wrt_filter)

lemma expired_keys:
  assumes "invariant s"
  shows "map_key ` set (expired_entries now s) =
           {k. mapContains k s \<and> fst (get now k s) = None}"
proof (rule set_eqI)
  fix k
  have ms: "map_sorted (kv_map s)" using assms by (simp add: invariant_def)
  note c = assms [unfolded invariant_def, THEN conjunct2, THEN conjunct2,
      unfolded consistent_iff [OF ms]]
  show "k \<in> map_key ` set (expired_entries now s) \<longleftrightarrow>
        k \<in> {k. mapContains k s \<and> fst (get now k s) = None}"
  proof
    assume "k \<in> map_key ` set (expired_entries now s)"
    then obtain b where b: "b \<in> set (expiration_set s)" "death_time b \<le> now" "map_key b = k"
      by (auto simp: expired_entries_def)
    with c obtain e where e: "map_of (kv_map s) k = Some e" "kv_death_time e = death_time b"
      by blast
    from b(3) e(2) have "\<lparr>map_key = k, death_time = kv_death_time e\<rparr> = b" by (cases b) auto
    with b(1) have "\<lparr>map_key = k, death_time = kv_death_time e\<rparr> \<in> set (expiration_set s)"
      by simp
    moreover from b(2) e(2) have "\<not> now < kv_death_time e"
      by (simp add: not_less)
    ultimately show "k \<in> {k. mapContains k s \<and> fst (get now k s) = None}"
      using e(1) by (simp add: mapContains_iff map_find_def get_eq)
  next
    assume "k \<in> {k. mapContains k s \<and> fst (get now k s) = None}"
    then obtain e where e: "map_find k (kv_map s) = Some e"
      and g: "fst (get now k s) = None"
      by (auto simp: mapContains_iff)
    from g e have "\<lparr>map_key = k, death_time = kv_death_time e\<rparr> \<in> set (expiration_set s)"
      and "kv_death_time e \<le> now"
      by (simp_all add: get_eq not_less split: if_splits)
    then have "\<lparr>map_key = k, death_time = kv_death_time e\<rparr> \<in> set (expired_entries now s)"
      by (simp add: expired_entries_def)
    then show "k \<in> map_key ` set (expired_entries now s)"
      by force
  qed
qed

lemma evicted_entry_stored:
  assumes "invariant s" and "b \<in> set (expiration_set s)"
  shows "map_find (map_key b) (kv_map s) =
           Some \<lparr>kv_value = snd (evicted_pair s b), kv_death_time = death_time b\<rparr>"
proof -
  have ms: "map_sorted (kv_map s)" using assms(1) by (simp add: invariant_def)
  from assms consistent_iff [OF ms]
  obtain e where e: "map_find (map_key b) (kv_map s) = Some e" "kv_death_time e = death_time b"
    by (auto simp: invariant_def map_find_def)
  then have "e = \<lparr>kv_value = snd (evicted_pair s b), kv_death_time = death_time b\<rparr>"
    by (cases e) (simp add: evicted_pair_def map_subscript_def)
  with e(1) show ?thesis by simp
qed

lemma head_is_least:
  assumes "invariant s" and "expiration_set s = b # rest"
  shows "\<forall>c \<in> set rest. timedSetComparator b c"
  using assms by (simp add: invariant_def set_sorted_def)

lemma evicted_key_gone:
  assumes "invariant s" and "expiration_set s = b # rest" and "death_time b \<le> now"
  shows "\<not> mapContains (map_key b) (snd (removeOneExpiredEntry now s))"
    and "\<forall>c \<in> set (expiration_set (snd (removeOneExpiredEntry now s))). map_key c \<noteq> map_key b"
proof -
  have ms: "map_sorted (kv_map s)" using assms(1) by (simp add: invariant_def)
  show "\<not> mapContains (map_key b) (snd (removeOneExpiredEntry now s))"
    by (simp add: removeOneExpiredEntry_evicts [OF assms] mapContains_iff map_find_def
        map_of_map_erase [OF ms])
  have "distinct (map map_key (b # rest))"
    using invariant_one_entry_per_key [OF assms(1)] by (simp add: one_entry_per_key_def assms(2))
  then have "map_key b \<notin> map_key ` set rest"
    by simp
  then have "\<forall>c \<in> set rest. map_key c \<noteq> map_key b"
    by (metis imageI)
  then show "\<forall>c \<in> set (expiration_set (snd (removeOneExpiredEntry now s))). map_key c \<noteq> map_key b"
    by (simp add: removeOneExpiredEntry_evicts [OF assms])
qed

lemma expired_entries_distinct_keys:
  assumes "invariant s"
  shows "distinct (map map_key (expired_entries now s))"
  using invariant_one_entry_per_key [OF assms]
  unfolding one_entry_per_key_def expired_entries_def
  by (rule distinct_map_filter)

section \<open>The claims\<close>

subsection \<open>C1: consistency of the two containers\<close>

text \<open>
  C1, as amended. Construction and every operation (\<open>set\<close>, \<open>remove\<close>, \<open>get\<close>,
  \<open>getManySorted\<close>, \<open>removeOneExpiredEntry\<close>) keep \<open>invariant\<close>: both containers
  strictly ordered, every element \<open>(t, k)\<close> of the expiration index belongs to a key \<open>k\<close>
  of the primary map whose death time is \<open>t\<close>, and every key whose death time is not the
  sentinel has its element in the index. In such a state each key has at most one element
  in the index. Together with the condition that no element of the index carries the
  sentinel death time, this is the claimed equivalence \<open>indexed_iff_finite\<close>; that
  condition is kept by \<open>remove\<close> and \<open>removeOneExpiredEntry\<close>, and by \<open>set\<close> unless
  \<open>ttl \<noteq> 0\<close> and the computed death time is the sentinel.
\<close>

theorem invariant_preserved:
  assumes "invariant s"
  shows "invariant (KVStorage_init entries clock)
       \<and> invariant (set_kv now key val ttl s)
       \<and> invariant (snd (remove key s))
       \<and> invariant (snd (get now key s))
       \<and> invariant (snd (getManySorted now key count s))
       \<and> invariant (snd (removeOneExpiredEntry now s))
       \<and> one_entry_per_key s
       \<and> (no_sentinel_entry s \<longrightarrow>
            indexed_iff_finite s
          \<and> (ttl = 0 \<or> getDeathTime now ttl \<noteq> maxTime \<longrightarrow>
               no_sentinel_entry (set_kv now key val ttl s))
          \<and> no_sentinel_entry (snd (remove key s))
          \<and> no_sentinel_entry (snd (removeOneExpiredEntry now s)))"
  using assms
  by (simp add: invariant_KVStorage_init invariant_set_kv invariant_remove get_state
      getManySorted_state invariant_removeOneExpiredEntry invariant_one_entry_per_key
      indexed_iff_finite_eq no_sentinel_set_kv no_sentinel_remove
      no_sentinel_removeOneExpiredEntry)
     (simp add: invariant_def)

theorem invariant_preserved_witness:
  "invariant sample_store \<and> no_sentinel_entry sample_store
   \<and> (3 = (0::u32) \<or> getDeathTime 1 3 \<noteq> maxTime)
   \<and> invariant (set_kv 1 ''a'' ''7'' 3 sample_store)
   \<and> invariant (snd (removeOneExpiredEntry 2 sample_store))
   \<and> indexed_iff_finite sample_store
   \<and> no_sentinel_entry (set_kv 1 ''a'' ''7'' 3 sample_store)"
proof -
  have h: "invariant sample_store" by code_simp
  have n: "no_sentinel_entry sample_store" by code_simp
  have d: "3 = (0::u32) \<or> getDeathTime 1 3 \<noteq> maxTime" by code_simp
  note t = invariant_preserved [OF h, where now = 1 and key = "''a''" and val = "''7''" and ttl = 3]
  note t2 = invariant_preserved [OF h, where now = 2]
  from t t2 have "invariant (set_kv 1 ''a'' ''7'' 3 sample_store)"
    and "invariant (snd (removeOneExpiredEntry 2 sample_store))"
    by blast+
  moreover from t n d have "indexed_iff_finite sample_store"
    and "no_sentinel_entry (set_kv 1 ''a'' ''7'' 3 sample_store)"
    by blast+
  ultimately show ?thesis using h n d by blast
qed

text \<open>
  The claim as stated fails: at time \<open>2^64 - 2\<close>, \<open>set("a", "v", 1)\<close> on the empty store
  computes the death time \<open>2^64 - 1\<close>, the sentinel, and still inserts the element into
  the expiration index.
\<close>

theorem indexed_iff_finite_counterexample:
  "indexed_iff_finite empty_storage
   \<and> \<not> indexed_iff_finite (set_kv (- 2) ''a'' ''v'' 1 empty_storage)"
  by code_simp

subsection \<open>C2: when \<open>get\<close> returns a value\<close>

text \<open>
  C2, as amended. In a consistent store, \<open>get(key)\<close> at time \<open>now\<close> returns the stored
  value exactly when the key is in the primary map and either its death time is strictly
  after \<open>now\<close>, or its death time is the sentinel and the key has no element in the
  expiration index (it was last set with \<open>ttl = 0\<close>). So a key whose death time equals
  \<open>now\<close> is unavailable unless it is such an immortal key at time \<open>2^64 - 1\<close>. A key set
  with \<open>ttl = T \<noteq> 0\<close> at time \<open>t0\<close> is retrievable exactly at the times
  \<open>now < (t0 + T) mod 2^64\<close>.
\<close>

theorem get_returns_live_value:
  assumes "invariant s"
  shows "fst (get now key s) =
     (case map_find key (kv_map s) of
        None \<Rightarrow> None
      | Some e \<Rightarrow>
          if now < kv_death_time e
             \<or> (kv_death_time e = maxTime
                \<and> \<lparr>map_key = key, death_time = maxTime\<rparr> \<notin> set (expiration_set s))
          then Some (kv_value e) else None)
     \<and> (ttl \<noteq> 0 \<longrightarrow>
          fst (get now key (set_kv t0 key val ttl s)) =
            (if unat now < (unat t0 + unat ttl) mod 2 ^ 64 then Some val else None))"
proof -
  have "ttl \<noteq> 0 \<longrightarrow>
          fst (get now key (set_kv t0 key val ttl s)) =
            (if unat now < (unat t0 + unat ttl) mod 2 ^ 64 then Some val else None)"
  proof
    assume t: "ttl \<noteq> 0"
    have "now < getDeathTime t0 ttl \<longleftrightarrow> unat now < (unat t0 + unat ttl) mod 2 ^ 64"
      by (simp only: word_less_nat_alt unat_getDeathTime [OF t])
    then show "fst (get now key (set_kv t0 key val ttl s)) =
            (if unat now < (unat t0 + unat ttl) mod 2 ^ 64 then Some val else None)"
      by (simp only: get_after_set_kv [OF t])
  qed
  with get_eq_invariant [OF assms, of now key] show ?thesis
    by (rule conjI)
qed

theorem get_returns_live_value_witness:
  "invariant sample_store
   \<and> fst (get 1 ''a'' sample_store) = Some ''1''
   \<and> fst (get 2 ''a'' sample_store) = None
   \<and> fst (get 2 ''q'' sample_store) = None
   \<and> (4 :: u32) \<noteq> 0
   \<and> fst (get 13 ''a'' (set_kv 10 ''a'' ''v'' 4 sample_store)) = Some ''v''
   \<and> fst (get 14 ''a'' (set_kv 10 ''a'' ''v'' 4 sample_store)) = None"
proof -
  have h: "invariant sample_store" by code_simp
  have a: "map_find ''a'' (kv_map sample_store) = Some \<lparr>kv_value = ''1'', kv_death_time = 2\<rparr>"
    by code_simp
  have q: "map_find ''q'' (kv_map sample_store) = None"
    by code_simp
  have n: "(4 :: u32) \<noteq> 0" by simp
  from get_returns_live_value [OF h, of 1 "''a''"] a
  have g1: "fst (get 1 ''a'' sample_store) = Some ''1''" by simp
  from get_returns_live_value [OF h, of 2 "''a''"] a
  have g2: "fst (get 2 ''a'' sample_store) = None" by (simp add: maxTime_def)
  from get_returns_live_value [OF h, of 2 "''q''"] q
  have g3: "fst (get 2 ''q'' sample_store) = None" by simp
  from get_returns_live_value [OF h, of 13 "''a''" 4 10 "''v''"]
  have g4: "fst (get 13 ''a'' (set_kv 10 ''a'' ''v'' 4 sample_store)) = Some ''v''" by simp
  from get_returns_live_value [OF h, of 14 "''a''" 4 10 "''v''"]
  have g5: "fst (get 14 ''a'' (set_kv 10 ''a'' ''v'' 4 sample_store)) = None" by simp
  show ?thesis
    by (intro conjI h g1 g2 g3 n g4 g5)
qed

text \<open>
  The claim as stated fails for a key set with \<open>ttl = 0\<close> at time \<open>2^64 - 1\<close>: the key's
  death time is the sentinel, which is not strictly greater than the current time, and
  \<open>get\<close> returns the value.
\<close>

theorem get_iff_death_time_later_counterexample:
  "map_find ''a'' (kv_map (set_kv 0 ''a'' ''1'' 0 empty_storage)) =
     Some \<lparr>kv_value = ''1'', kv_death_time = maxTime\<rparr>
   \<and> \<not> maxTime < kv_death_time \<lparr>kv_value = ''1'', kv_death_time = maxTime\<rparr>
   \<and> fst (get maxTime ''a'' (set_kv 0 ''a'' ''1'' 0 empty_storage)) = Some ''1''"
  by code_simp

subsection \<open>C3: eviction\<close>

text \<open>
  C3. In a consistent store, \<open>removeOneExpiredEntry\<close> at time \<open>now\<close> returns absent exactly
  when the expiration index is empty or the death time of its first, least element is
  strictly after \<open>now\<close>, and then the store is unchanged. Otherwise it returns the key of
  that least element with the value stored for it, and removes the key from the primary
  map and the element from the index. Calling it repeatedly at the same \<open>now\<close> returns the
  expired elements of the index, those with death time \<open>\<le> now\<close>, one call each, in the
  order of the index (by death time, equal death times by key), and absent from then on.
  The keys returned are exactly the stored keys for which \<open>get\<close> at \<open>now\<close> returns absent.
\<close>

theorem removeOneExpiredEntry_drains:
  assumes "invariant s"
  shows "(fst (removeOneExpiredEntry now s) = None) = nothing_expired now s
       \<and> (nothing_expired now s \<longrightarrow> snd (removeOneExpiredEntry now s) = s)
       \<and> (\<forall>b rest. expiration_set s = b # rest \<and> death_time b \<le> now \<longrightarrow>
             removeOneExpiredEntry now s =
               (Some (evicted_pair s b),
                \<lparr>kv_map = map_erase (map_key b) (kv_map s), expiration_set = rest\<rparr>)
           \<and> (\<forall>c \<in> set rest. timedSetComparator b c)
           \<and> map_find (map_key b) (kv_map s) =
               Some \<lparr>kv_value = snd (evicted_pair s b), kv_death_time = death_time b\<rparr>
           \<and> \<not> mapContains (map_key b) (snd (removeOneExpiredEntry now s))
           \<and> (\<forall>c \<in> set (expiration_set (snd (removeOneExpiredEntry now s))).
                 map_key c \<noteq> map_key b))
       \<and> fst (evict_repeat (length (expired_entries now s) + j) now s) =
           map (\<lambda>b. Some (evicted_pair s b)) (expired_entries now s) @ replicate j None
       \<and> sorted_wrt timedSetComparator (expired_entries now s)
       \<and> distinct (map map_key (expired_entries now s))
       \<and> map_key ` set (expired_entries now s) =
           {k. mapContains k s \<and> fst (get now k s) = None}"
proof -
  have ss: "set_sorted (expiration_set s)" using assms by (simp add: invariant_def)
  have a: "(fst (removeOneExpiredEntry now s) = None) = nothing_expired now s"
    by (simp add: removeOneExpiredEntry_eq [OF assms] nothing_expired_def split: list.splits)
  have b: "nothing_expired now s \<longrightarrow> snd (removeOneExpiredEntry now s) = s"
    by (simp add: removeOneExpiredEntry_nothing)
  have c: "\<forall>b rest. expiration_set s = b # rest \<and> death_time b \<le> now \<longrightarrow>
             removeOneExpiredEntry now s =
               (Some (evicted_pair s b),
                \<lparr>kv_map = map_erase (map_key b) (kv_map s), expiration_set = rest\<rparr>)
           \<and> (\<forall>c \<in> set rest. timedSetComparator b c)
           \<and> map_find (map_key b) (kv_map s) =
               Some \<lparr>kv_value = snd (evicted_pair s b), kv_death_time = death_time b\<rparr>
           \<and> \<not> mapContains (map_key b) (snd (removeOneExpiredEntry now s))
           \<and> (\<forall>c \<in> set (expiration_set (snd (removeOneExpiredEntry now s))).
                 map_key c \<noteq> map_key b)"
  proof (intro allI impI)
    fix b rest
    assume "expiration_set s = b # rest \<and> death_time b \<le> now"
    then have es: "expiration_set s = b # rest" and d: "death_time b \<le> now" by blast+
    from es have m: "b \<in> set (expiration_set s)" by simp
    show "removeOneExpiredEntry now s =
               (Some (evicted_pair s b),
                \<lparr>kv_map = map_erase (map_key b) (kv_map s), expiration_set = rest\<rparr>)
           \<and> (\<forall>c \<in> set rest. timedSetComparator b c)
           \<and> map_find (map_key b) (kv_map s) =
               Some \<lparr>kv_value = snd (evicted_pair s b), kv_death_time = death_time b\<rparr>
           \<and> \<not> mapContains (map_key b) (snd (removeOneExpiredEntry now s))
           \<and> (\<forall>c \<in> set (expiration_set (snd (removeOneExpiredEntry now s))).
                 map_key c \<noteq> map_key b)"
      by (intro conjI removeOneExpiredEntry_evicts [OF assms es d] head_is_least [OF assms es]
          evicted_entry_stored [OF assms m] evicted_key_gone [OF assms es d])
  qed
  show ?thesis
    by (intro conjI a b c evict_repeat_drains [OF assms] expired_entries_sorted [OF ss]
        expired_entries_distinct_keys [OF assms] expired_keys [OF assms])
qed

theorem removeOneExpiredEntry_drains_witness:
  "invariant sample_store
   \<and> expired_entries 2 sample_store =
       [\<lparr>map_key = ''e'', death_time = 1\<rparr>, \<lparr>map_key = ''a'', death_time = 2\<rparr>,
        \<lparr>map_key = ''x'', death_time = 2\<rparr>]
   \<and> fst (evict_repeat (length (expired_entries 2 sample_store) + 2) 2 sample_store) =
       [Some (''e'', ''5''), Some (''a'', ''1''), Some (''x'', ''j9''), None, None]
   \<and> nothing_expired 0 sample_store
   \<and> snd (removeOneExpiredEntry 0 sample_store) = sample_store"
proof -
  have h: "invariant sample_store" by code_simp
  have e: "expired_entries 2 sample_store =
       [\<lparr>map_key = ''e'', death_time = 1\<rparr>, \<lparr>map_key = ''a'', death_time = 2\<rparr>,
        \<lparr>map_key = ''x'', death_time = 2\<rparr>]"
    by code_simp
  have p: "map (\<lambda>b. Some (evicted_pair sample_store b))
       [\<lparr>map_key = ''e'', death_time = 1\<rparr>, \<lparr>map_key = ''a'', death_time = 2\<rparr>,
        \<lparr>map_key = ''x'', death_time = 2\<rparr>]
     = [Some (''e'', ''5''), Some (''a'', ''1''), Some (''x'', ''j9'')]"
    by code_simp
  have n: "nothing_expired 0 sample_store" by code_simp
  note t = removeOneExpiredEntry_drains [OF h, of 2 2]
  note t0 = removeOneExpiredEntry_drains [OF h, of 0]
  have q: "map (\<lambda>b. Some (evicted_pair sample_store b)) (expired_entries 2 sample_store)
           @ replicate 2 None
     = [Some (''e'', ''5''), Some (''a'', ''1''), Some (''x'', ''j9''), None, None]"
    by (simp only: e p) (simp add: numeral_2_eq_2)
  from t have "fst (evict_repeat (length (expired_entries 2 sample_store) + 2) 2 sample_store) =
           map (\<lambda>b. Some (evicted_pair sample_store b)) (expired_entries 2 sample_store)
           @ replicate 2 None"
    by (elim conjE)
  then have r: "fst (evict_repeat (length (expired_entries 2 sample_store) + 2) 2 sample_store) =
       [Some (''e'', ''5''), Some (''a'', ''1''), Some (''x'', ''j9''), None, None]"
    by (simp only: q)
  from t0 n have u: "snd (removeOneExpiredEntry 0 sample_store) = sample_store"
    by blast
  show ?thesis
    by (intro conjI h e r n u)
qed

subsection \<open>C4: what a scan returns\<close>

text \<open>
  C4. In a store whose primary map is in key order, \<open>getManySorted(key, count)\<close> at
  time \<open>now\<close> returns the first \<open>count\<close> entries that are live (death time strictly after
  \<open>now\<close>) and whose key is at least \<open>key\<close>: every returned pair is the value of a stored
  key with death time \<open>> now\<close> and key \<open>\<ge> key\<close>, there are at most \<open>count\<close> of them, their
  keys are strictly ascending, and for \<open>count = 0\<close> the result is empty.
\<close>

theorem getManySorted_properties:
  assumes "map_sorted (kv_map s)"
  shows "fst (getManySorted now key count s) =
           take (unat count) (map key_value (live_from now key (kv_map s)))
       \<and> (\<forall>(k, v) \<in> set (fst (getManySorted now key count s)).
             \<exists>e. map_find k (kv_map s) = Some e \<and> kv_value e = v
                \<and> now < kv_death_time e \<and> key \<le> k)
       \<and> length (fst (getManySorted now key count s)) \<le> unat count
       \<and> sorted_wrt (<) (map fst (fst (getManySorted now key count s)))
       \<and> (count = 0 \<longrightarrow> fst (getManySorted now key count s) = [])"
proof -
  let ?r = "fst (getManySorted now key count s)"
  have a: "\<forall>(k, v) \<in> set ?r. \<exists>e. map_find k (kv_map s) = Some e \<and> kv_value e = v
                \<and> now < kv_death_time e \<and> key \<le> k"
  proof (clarify)
    fix k v
    assume "(k, v) \<in> set ?r"
    then have "(k, v) \<in> set (map key_value (live_from now key (kv_map s)))"
      unfolding getManySorted_eq by (rule in_set_takeD)
    then obtain e where "(k, e) \<in> set (kv_map s)" "now < kv_death_time e" "key \<le> k"
      "v = kv_value e"
      by (auto simp: key_value_def live_from_def)
    with map_sorted_map_of [OF assms]
    show "\<exists>e. map_find k (kv_map s) = Some e \<and> kv_value e = v
                \<and> now < kv_death_time e \<and> key \<le> k"
      by (auto simp: map_find_def)
  qed
  have b: "length ?r \<le> unat count"
    by (simp add: getManySorted_eq)
  have "map fst ?r = take (unat count) (map fst (live_from now key (kv_map s)))"
    by (simp only: getManySorted_eq take_map map_fst_key_value)
  with sorted_wrt_take [OF sorted_live_from [OF assms]]
  have c: "sorted_wrt (<) (map fst ?r)"
    by simp
  have d: "count = 0 \<longrightarrow> ?r = []"
    by (simp add: getManySorted_def)
  show ?thesis
    by (intro conjI getManySorted_eq a b c d)
qed

theorem getManySorted_properties_witness:
  "map_sorted (kv_map sample_store)
   \<and> fst (getManySorted 1 ''c'' 3 sample_store) = [(''d'', ''4''), (''x'', ''j9'')]
   \<and> length (fst (getManySorted 1 ''c'' 3 sample_store)) \<le> unat (3 :: u32)
   \<and> sorted_wrt (<) (map fst (fst (getManySorted 1 ''c'' 3 sample_store)))
   \<and> fst (getManySorted 1 ''c'' 0 sample_store) = []"
proof -
  have h: "map_sorted (kv_map sample_store)" by code_simp
  have v: "fst (getManySorted 1 ''c'' 3 sample_store) = [(''d'', ''4''), (''x'', ''j9'')]"
    by code_simp
  note t = getManySorted_properties [OF h, of 1 "''c''" 3]
  note t0 = getManySorted_properties [OF h, of 1 "''c''" 0]
  from t have l: "length (fst (getManySorted 1 ''c'' 3 sample_store)) \<le> unat (3 :: u32)"
    by (elim conjE)
  from t have o: "sorted_wrt (<) (map fst (fst (getManySorted 1 ''c'' 3 sample_store)))"
    by (elim conjE)
  from t0 have z: "fst (getManySorted 1 ''c'' 0 sample_store) = []"
    by (elim conjE) (erule mp, rule refl)
  show ?thesis
    by (intro conjI h v l o z)
qed

subsection \<open>C5: \<open>set\<close> overwrites unconditionally\<close>

text \<open>
  C5. In a consistent store, \<open>set(key, value, ttl)\<close> at time \<open>now\<close> is a total function of
  its arguments, and afterwards the key, whether it was stored before or not and whatever
  its former death time, maps to the new value and to the new death time: the sentinel for
  \<open>ttl = 0\<close>, else \<open>now + ttl\<close>. Every other key keeps its entry. The expiration index
  loses the key's former element and gains the new element exactly when \<open>ttl \<noteq> 0\<close>.
\<close>

theorem set_kv_overwrites:
  assumes "invariant s"
  shows "map_find key (kv_map (set_kv now key val ttl s)) =
           Some \<lparr>kv_value = val,
                 kv_death_time = (if ttl = 0 then maxTime else now + ucast ttl)\<rparr>
       \<and> (\<forall>k. k \<noteq> key \<longrightarrow>
             map_find k (kv_map (set_kv now key val ttl s)) = map_find k (kv_map s))
       \<and> set (expiration_set (set_kv now key val ttl s)) =
           {b \<in> set (expiration_set s). map_key b \<noteq> key}
           \<union> (if ttl \<noteq> 0 then {\<lparr>map_key = key, death_time = now + ucast ttl\<rparr>} else {})"
  using index_set_kv [OF assms, of now key val ttl]
  by (simp add: map_find_set_kv getDeathTime_def add.commute)

theorem set_kv_overwrites_witness:
  "invariant sample_store
   \<and> map_find ''a'' (kv_map sample_store) = Some \<lparr>kv_value = ''1'', kv_death_time = 2\<rparr>
   \<and> map_find ''a'' (kv_map (set_kv 7 ''a'' ''new'' 0 sample_store)) =
       Some \<lparr>kv_value = ''new'', kv_death_time = maxTime\<rparr>
   \<and> map_find ''b'' (kv_map sample_store) = Some \<lparr>kv_value = ''2'', kv_death_time = maxTime\<rparr>
   \<and> map_find ''b'' (kv_map (set_kv 7 ''b'' ''new'' 5 sample_store)) =
       Some \<lparr>kv_value = ''new'', kv_death_time = 12\<rparr>
   \<and> \<lparr>map_key = ''b'', death_time = 12\<rparr> \<in> set (expiration_set (set_kv 7 ''b'' ''new'' 5 sample_store))"
proof -
  have h: "invariant sample_store" by code_simp
  have a: "map_find ''a'' (kv_map sample_store) = Some \<lparr>kv_value = ''1'', kv_death_time = 2\<rparr>"
    by code_simp
  have b: "map_find ''b'' (kv_map sample_store) = Some \<lparr>kv_value = ''2'', kv_death_time = maxTime\<rparr>"
    by code_simp
  from set_kv_overwrites [OF h, of "''a''" 7 "''new''" 0]
  have a': "map_find ''a'' (kv_map (set_kv 7 ''a'' ''new'' 0 sample_store)) =
       Some \<lparr>kv_value = ''new'', kv_death_time = maxTime\<rparr>"
    by simp
  from set_kv_overwrites [OF h, of "''b''" 7 "''new''" 5]
  have b': "map_find ''b'' (kv_map (set_kv 7 ''b'' ''new'' 5 sample_store)) =
       Some \<lparr>kv_value = ''new'', kv_death_time = 12\<rparr>"
    and b'': "\<lparr>map_key = ''b'', death_time = 12\<rparr> \<in> set (expiration_set (set_kv 7 ''b'' ''new'' 5 sample_store))"
    by simp_all
  show ?thesis
    by (intro conjI h a a' b b' b'')
qed

subsection \<open>C6: keys set with \<open>ttl = 0\<close>\<close>

text \<open>
  C6. In a consistent store, after \<open>set(key, val, 0)\<close> and any sequence of further calls,
  at any clock readings, none of which is a \<open>set\<close> or a \<open>remove\<close> of that key, \<open>get(key)\<close>
  returns \<open>val\<close> at every time \<open>now\<close>; in particular at \<open>now = 2^64 - 1\<close>, where the stored
  death time equals \<open>now\<close>.
\<close>

theorem ttl_zero_is_immortal:
  assumes "invariant s" and "list_all (\<lambda>(t, c). \<not> writes_key key c) calls"
  shows "fst (get now key (run calls (set_kv t0 key val 0 s))) = Some val
       \<and> fst (get maxTime key (run calls (set_kv t0 key val 0 s))) = Some val
       \<and> map_find key (kv_map (run calls (set_kv t0 key val 0 s))) =
           Some \<lparr>kv_value = val, kv_death_time = maxTime\<rparr>"
proof -
  have "immortal key val (run calls (set_kv t0 key val 0 s))"
    using invariant_set_kv [OF assms(1)] immortal_set_kv_zero [OF assms(1)] assms(2)
    by (rule immortal_run)
  then show ?thesis
    by (simp add: immortal_get) (simp add: immortal_def)
qed

theorem ttl_zero_is_immortal_witness:
  "invariant sample_store
   \<and> list_all (\<lambda>(t, c). \<not> writes_key ''a'' c)
        [(3, RemoveOneExpiredEntry), (4, Set ''c'' ''9'' 1), (maxTime, RemoveOneExpiredEntry),
         (maxTime, Get ''a''), (maxTime, Remove ''b'')]
   \<and> fst (get maxTime ''a''
        (run [(3, RemoveOneExpiredEntry), (4, Set ''c'' ''9'' 1), (maxTime, RemoveOneExpiredEntry),
              (maxTime, Get ''a''), (maxTime, Remove ''b'')]
           (set_kv 1 ''a'' ''7'' 0 sample_store))) = Some ''7''"
proof -
  have h: "invariant sample_store" by code_simp
  have c: "list_all (\<lambda>(t, c). \<not> writes_key ''a'' c)
        [(3, RemoveOneExpiredEntry), (4, Set ''c'' ''9'' 1), (maxTime, RemoveOneExpiredEntry),
         (maxTime, Get ''a''), (maxTime, Remove ''b'')]"
    by simp
  from ttl_zero_is_immortal [OF h c, of maxTime 1 "''7''"]
  have g: "fst (get maxTime ''a''
        (run [(3, RemoveOneExpiredEntry), (4, Set ''c'' ''9'' 1), (maxTime, RemoveOneExpiredEntry),
              (maxTime, Get ''a''), (maxTime, Remove ''b'')]
           (set_kv 1 ''a'' ''7'' 0 sample_store))) = Some ''7''"
    by (elim conjE)
  show ?thesis
    by (intro conjI h c g)
qed

subsection \<open>C7: \<open>remove\<close>\<close>

text \<open>
  C7. In a consistent store, \<open>remove(key)\<close> returns true exactly when the key was in the
  primary map before the call; the clock is not consulted, so a key whose death time has
  passed counts as present. Afterwards the key is in neither container, every other key
  and every other element of the index is as before, and a second \<open>remove\<close> of the same
  key returns false.
\<close>

theorem remove_returns_presence:
  assumes "invariant s"
  shows "fst (remove key s) = mapContains key s
       \<and> \<not> mapContains key (snd (remove key s))
       \<and> set (expiration_set (snd (remove key s))) =
           {b \<in> set (expiration_set s). map_key b \<noteq> key}
       \<and> (\<forall>k. k \<noteq> key \<longrightarrow>
             map_find k (kv_map (snd (remove key s))) = map_find k (kv_map s))
       \<and> fst (remove key (snd (remove key s))) = False"
proof -
  have ms: "map_sorted (kv_map s)" using assms by (simp add: invariant_def)
  have a: "fst (remove key s) = mapContains key s"
    by (simp add: remove_eq mapContains_iff split: option.splits)
  have b: "\<not> mapContains key (snd (remove key s))"
    by (simp add: mapContains_iff map_find_remove [OF ms])
  have c: "\<forall>k. k \<noteq> key \<longrightarrow>
             map_find k (kv_map (snd (remove key s))) = map_find k (kv_map s)"
    by (simp add: map_find_remove [OF ms])
  have d: "fst (remove key (snd (remove key s))) = False"
    using b by (simp add: remove_def)
  show ?thesis
    by (intro conjI a b c d index_remove [OF assms])
qed

theorem remove_returns_presence_witness:
  "invariant sample_store
   \<and> fst (get 5 ''e'' sample_store) = None
   \<and> mapContains ''e'' sample_store
   \<and> fst (remove ''e'' sample_store) = True
   \<and> \<not> mapContains ''e'' (snd (remove ''e'' sample_store))
   \<and> fst (remove ''e'' (snd (remove ''e'' sample_store))) = False"
proof -
  have h: "invariant sample_store" by code_simp
  have g: "fst (get 5 ''e'' sample_store) = None" by code_simp
  have m: "mapContains ''e'' sample_store" by code_simp
  note t = remove_returns_presence [OF h, of "''e''"]
  from t m have a: "fst (remove ''e'' sample_store) = True" by simp
  from t have b: "\<not> mapContains ''e'' (snd (remove ''e'' sample_store))" by (elim conjE)
  from t have c: "fst (remove ''e'' (snd (remove ''e'' sample_store))) = False" by (elim conjE)
  show ?thesis
    by (intro conjI h g m a b c)
qed

subsection \<open>C8: construction\<close>

text \<open>
  C8. The constructor produces exactly the state obtained from the empty store by applying
  \<open>set\<close> to each triple in input order, the \<open>i\<close>-th under the clock reading of its own
  call. So for each key the last triple that names it decides: its value is stored, with
  the death time computed from its ttl at its clock reading.
\<close>

theorem construction_is_repeated_set:
  "KVStorage_init entries clock = construct_by_set entries clock
   \<and> (\<forall>n. n < length entries
          \<and> (\<forall>j. n < j \<and> j < length entries \<longrightarrow> fst (entries ! j) \<noteq> fst (entries ! n))
        \<longrightarrow> map_find (fst (entries ! n)) (kv_map (KVStorage_init entries clock)) =
              Some \<lparr>kv_value = fst (snd (entries ! n)),
                    kv_death_time = getDeathTime (clock n) (snd (snd (entries ! n)))\<rparr>)"
proof (intro conjI allI impI)
  show "KVStorage_init entries clock = construct_by_set entries clock"
    by (simp add: KVStorage_init_def construct_by_set_def KVStorage_loop_foldl)
next
  fix n
  assume "n < length entries
          \<and> (\<forall>j. n < j \<and> j < length entries \<longrightarrow> fst (entries ! j) \<noteq> fst (entries ! n))"
  then have a: "n < length entries"
    and b: "\<forall>j. n < j \<and> j < length entries \<longrightarrow> fst (entries ! j) \<noteq> fst (entries ! n)"
    by blast+
  from KVStorage_loop_last_wins [OF a b, of clock 0 empty_storage]
  show "map_find (fst (entries ! n)) (kv_map (KVStorage_init entries clock)) =
              Some \<lparr>kv_value = fst (snd (entries ! n)),
                    kv_death_time = getDeathTime (clock n) (snd (snd (entries ! n)))\<rparr>"
    by (simp add: KVStorage_init_def)
qed

theorem construction_is_repeated_set_witness:
  "KVStorage_init [(''k'', ''old'', 0), (''j'', ''x'', 4), (''k'', ''new'', 7)] (\<lambda>i. 10 * of_nat i)
     = set_kv 20 ''k'' ''new'' 7 (set_kv 10 ''j'' ''x'' 4 (set_kv 0 ''k'' ''old'' 0 empty_storage))
   \<and> map_find ''k''
        (kv_map (KVStorage_init [(''k'', ''old'', 0), (''j'', ''x'', 4), (''k'', ''new'', 7)]
                   (\<lambda>i. 10 * of_nat i)))
      = Some \<lparr>kv_value = ''new'', kv_death_time = 27\<rparr>"
proof -
  let ?es = "[(''k'', ''old'', 0), (''j'', ''x'', 4), (''k'', ''new'', 7)] :: entry list"
  let ?clock = "\<lambda>i. 10 * of_nat i :: u64"
  note t = construction_is_repeated_set [of ?es ?clock]
  from t have "KVStorage_init ?es ?clock = construct_by_set ?es ?clock" by (elim conjE)
  then have a: "KVStorage_init ?es ?clock =
      set_kv 20 ''k'' ''new'' 7 (set_kv 10 ''j'' ''x'' 4 (set_kv 0 ''k'' ''old'' 0 empty_storage))"
    by (simp add: construct_by_set_def enumerate_eq_zip upt_rec [of _ "Suc _"] upt_rec [of 0])
  have c: "(2::nat) < length ?es
          \<and> (\<forall>j. 2 < j \<and> j < length ?es \<longrightarrow> fst (?es ! j) \<noteq> fst (?es ! 2))"
    by simp
  from t c have "map_find (fst (?es ! 2)) (kv_map (KVStorage_init ?es ?clock)) =
              Some \<lparr>kv_value = fst (snd (?es ! 2)),
                    kv_death_time = getDeathTime (?clock 2) (snd (snd (?es ! 2)))\<rparr>"
    by blast
  then have b: "map_find ''k'' (kv_map (KVStorage_init ?es ?clock)) =
      Some \<lparr>kv_value = ''new'', kv_death_time = 27\<rparr>"
    by (simp add: getDeathTime_def)
  show ?thesis
    by (intro conjI a b)
qed

subsection \<open>C9: reads do not modify the store\<close>

text \<open>
  C9. \<open>get\<close> and \<open>getManySorted\<close> return the store exactly as it was, in every state and
  at every clock reading; so a key that was stored is still stored afterwards, whether
  its death time has passed or not, and a later \<open>remove\<close> of it returns true exactly when
  the key was in the primary map.
\<close>

theorem reads_leave_store_unchanged:
  "snd (get now key s) = s
   \<and> snd (getManySorted now key' count s) = s
   \<and> fst (remove key (snd (get now key s))) = mapContains key s
   \<and> fst (remove key (snd (getManySorted now key' count s))) = mapContains key s"
  by (simp add: get_state getManySorted_state remove_eq mapContains_def map_contains_def
      split: option.splits)

subsection \<open>C10: the death time is computed modulo \<open>2^64\<close>\<close>

text \<open>
  C10. For \<open>ttl \<noteq> 0\<close>, \<open>set\<close> at time \<open>now\<close> stores the death time
  \<open>(now + ttl) mod 2^64\<close> for the key and puts the element with that death time into the
  expiration index. When \<open>now + ttl \<ge> 2^64\<close> the stored death time is before \<open>now\<close>, so the
  key is unavailable at once. When \<open>(now + ttl) mod 2^64\<close> is the sentinel \<open>2^64 - 1\<close>, which
  happens exactly for \<open>now + ttl = 2^64 - 1\<close>, the entry carries the sentinel death time and
  is in the expiration index all the same.
\<close>

theorem set_kv_death_time_wraps:
  assumes "ttl \<noteq> 0"
  shows "unat (getDeathTime now ttl) = (unat now + unat ttl) mod 2 ^ 64
       \<and> map_find key (kv_map (set_kv now key val ttl s)) =
           Some \<lparr>kv_value = val, kv_death_time = getDeathTime now ttl\<rparr>
       \<and> \<lparr>map_key = key, death_time = getDeathTime now ttl\<rparr>
           \<in> set (expiration_set (set_kv now key val ttl s))
       \<and> (2 ^ 64 \<le> unat now + unat ttl \<longrightarrow>
             getDeathTime now ttl < now
           \<and> fst (get now key (set_kv now key val ttl s)) = None)
       \<and> ((unat now + unat ttl) mod 2 ^ 64 = 2 ^ 64 - 1 \<longrightarrow>
             getDeathTime now ttl = maxTime \<and> unat now + unat ttl = 2 ^ 64 - 1)"
proof -
  have a: "2 ^ 64 \<le> unat now + unat ttl \<longrightarrow>
             getDeathTime now ttl < now
           \<and> fst (get now key (set_kv now key val ttl s)) = None"
    using getDeathTime_wrapped [OF assms, of now]
    by (auto simp: get_after_set_kv [OF assms])
  have b: "(unat now + unat ttl) mod 2 ^ 64 = 2 ^ 64 - 1 \<longrightarrow>
             getDeathTime now ttl = maxTime \<and> unat now + unat ttl = 2 ^ 64 - 1"
  proof
    assume "(unat now + unat ttl) mod 2 ^ 64 = 2 ^ 64 - 1"
    then have "unat (getDeathTime now ttl) = unat maxTime"
      by (simp add: unat_getDeathTime [OF assms] unat_maxTime)
    then have "getDeathTime now ttl = maxTime" by (simp add: word_unat_eq_iff)
    with getDeathTime_sentinel [OF assms, of now]
    show "getDeathTime now ttl = maxTime \<and> unat now + unat ttl = 2 ^ 64 - 1" by simp
  qed
  show ?thesis
    by (intro conjI unat_getDeathTime [OF assms] index_set_kv_member [OF assms] a b)
       (simp add: map_find_set_kv)
qed

theorem set_kv_death_time_wraps_witness:
  "(5 :: u32) \<noteq> 0
   \<and> (2 :: nat) ^ 64 \<le> unat (- 3 :: u64) + unat (5 :: u32)
   \<and> getDeathTime (- 3) 5 = 2
   \<and> fst (get (- 3) ''k'' (set_kv (- 3) ''k'' ''v'' 5 empty_storage)) = None
   \<and> (unat (- 6 :: u64) + unat (5 :: u32)) mod 2 ^ 64 = 2 ^ 64 - 1
   \<and> getDeathTime (- 6) 5 = maxTime
   \<and> \<lparr>map_key = ''k'', death_time = maxTime\<rparr>
       \<in> set (expiration_set (set_kv (- 6) ''k'' ''v'' 5 empty_storage))"
proof -
  have n: "(5 :: u32) \<noteq> 0" by simp
  have w: "(2 :: nat) ^ 64 \<le> unat (- 3 :: u64) + unat (5 :: u32)" by simp
  have d: "getDeathTime (- 3) 5 = 2" by code_simp
  have m: "(unat (- 6 :: u64) + unat (5 :: u32)) mod 2 ^ 64 = 2 ^ 64 - 1" by simp
  note t = set_kv_death_time_wraps [OF n, of "- 3" "''k''" "''v''" empty_storage]
  note u = set_kv_death_time_wraps [OF n, of "- 6" "''k''" "''v''" empty_storage]
  from t w have g: "fst (get (- 3) ''k'' (set_kv (- 3) ''k'' ''v'' 5 empty_storage)) = None"
    by blast
  from u m have s: "getDeathTime (- 6) 5 = maxTime" by blast
  from u s have i: "\<lparr>map_key = ''k'', death_time = maxTime\<rparr>
       \<in> set (expiration_set (set_kv (- 6) ''k'' ''v'' 5 empty_storage))"
    by simp
  show ?thesis
    by (intro conjI n w d g m s i)
qed

end
